theory Spec2Isabelle
  imports Main "HOL-Library.Sublist"
begin

section \<open>JavaScript strings\<close>

text \<open>
  A JavaScript string is a sequence of UTF-16 code units; a code unit is modelled by its
  number. \<open>js\<close> turns an ASCII literal into such a sequence.
\<close>

type_synonym jsstring = "nat list"

definition js :: "string \<Rightarrow> jsstring" where
  "js s = map of_char s"

text \<open>LineTerminator: LF, CR, U+2028, U+2029 (what \<open>.\<close> refuses and where \<open>^\<close>, \<open>$\<close> match with the m flag).\<close>

definition is_line_terminator :: "nat \<Rightarrow> bool" where
  "is_line_terminator c = (c = 10 \<or> c = 13 \<or> c = 8232 \<or> c = 8233)"

text \<open>
  The class \<open>\s\<close>, which is also what \<open>String.prototype.trim\<close> strips: TAB, LF, VT, FF, CR,
  SPACE, U+00A0, U+1680, U+2000..U+200A, U+2028, U+2029, U+202F, U+205F, U+3000, U+FEFF.
\<close>

definition is_space :: "nat \<Rightarrow> bool" where
  "is_space c =
     (c = 9 \<or> c = 10 \<or> c = 11 \<or> c = 12 \<or> c = 13 \<or> c = 32 \<or> c = 160 \<or> c = 5760 \<or>
      (8192 \<le> c \<and> c \<le> 8202) \<or> c = 8232 \<or> c = 8233 \<or> c = 8239 \<or> c = 8287 \<or>
      c = 12288 \<or> c = 65279)"

text \<open>The class \<open>[\s\S]\<close>: every code unit.\<close>

definition any_unit :: "nat \<Rightarrow> bool" where
  "any_unit c = True"

text \<open>The class \<open>.\<close> (no s flag): every code unit but a line terminator.\<close>

definition dot :: "nat \<Rightarrow> bool" where
  "dot c = (\<not> is_line_terminator c)"

definition str_trim :: "jsstring \<Rightarrow> jsstring" where
  "str_trim s = rev (dropWhile is_space (rev (dropWhile is_space s)))"

text \<open>\<open>s.split(d)\<close> for a separator of one code unit: always at least one piece.\<close>

fun str_split :: "nat \<Rightarrow> jsstring \<Rightarrow> jsstring list" where
  "str_split d [] = [[]]"
| "str_split d (c # cs) =
     (if c = d then [] # str_split d cs
      else (case str_split d cs of [] \<Rightarrow> [[c]] | l # ls \<Rightarrow> (c # l) # ls))"

text \<open>\<open>xs.join(sep)\<close>.\<close>

fun arr_join :: "jsstring \<Rightarrow> jsstring list \<Rightarrow> jsstring" where
  "arr_join sep [] = []"
| "arr_join sep [x] = x"
| "arr_join sep (x # y # ys) = x @ sep @ arr_join sep (y # ys)"

section \<open>Regular expressions\<close>

text \<open>
  The fragment of the regular expressions the program uses: assertions \<open>^\<close> and \<open>$\<close> (with
  or without the m flag), literals, a character class under the greedy \<open>*\<close>, the lazy
  \<open>*?\<close> or the greedy \<open>+\<close>, the greedy \<open>?\<close>, capture groups and concatenation.
\<close>

datatype re =
    Bol bool
  | Eol bool
  | Lit jsstring
  | StarG "nat \<Rightarrow> bool"
  | StarL "nat \<Rightarrow> bool"
  | PlusG "nat \<Rightarrow> bool"
  | Opt re
  | Grp nat re
  | Seq re re

text \<open>
  A matcher state: the code unit before the current position (none at the start of the
  input), the input still to read, and the captures so far.
\<close>

record mstate =
  prev :: "nat option"
  rest :: jsstring
  caps :: "nat \<Rightarrow> jsstring option"

text \<open>
  All ways to read a run of code units of class \<open>C\<close> from the input, shortest first: each
  is the unit before the new position and the input left.
\<close>

fun runs :: "(nat \<Rightarrow> bool) \<Rightarrow> nat option \<Rightarrow> jsstring \<Rightarrow> (nat option \<times> jsstring) list" where
  "runs C p [] = [(p, [])]"
| "runs C p (c # cs) = (p, c # cs) # (if C c then runs C (Some c) cs else [])"

definition move :: "mstate \<Rightarrow> nat option \<times> jsstring \<Rightarrow> mstate" where
  "move st pr = st\<lparr>prev := fst pr, rest := snd pr\<rparr>"

text \<open>
  The backtracking matcher: \<open>matches r st\<close> lists the states in which \<open>r\<close> can end when
  started in \<open>st\<close>, in the order in which backtracking tries them. The first element is
  the match the engine reports; the empty list is failure.
\<close>

fun matches :: "re \<Rightarrow> mstate \<Rightarrow> mstate list" where
  "matches (Bol ml) st =
     (case prev st of None \<Rightarrow> [st]
      | Some c \<Rightarrow> if ml \<and> is_line_terminator c then [st] else [])"
| "matches (Eol ml) st =
     (case rest st of [] \<Rightarrow> [st]
      | c # cs \<Rightarrow> if ml \<and> is_line_terminator c then [st] else [])"
| "matches (Lit l) st =
     (if prefix l (rest st)
      then [st\<lparr>prev := (if l = [] then prev st else Some (last l)),
               rest := drop (length l) (rest st)\<rparr>]
      else [])"
| "matches (StarG C) st = map (move st) (rev (runs C (prev st) (rest st)))"
| "matches (StarL C) st = map (move st) (runs C (prev st) (rest st))"
| "matches (PlusG C) st = map (move st) (rev (tl (runs C (prev st) (rest st))))"
| "matches (Opt r) st = matches r st @ [st]"
| "matches (Grp n r) st =
     map (\<lambda>st'. st'\<lparr>caps := (caps st')(n \<mapsto> take (length (rest st) - length (rest st')) (rest st))\<rparr>)
       (matches r st)"
| "matches (Seq a b) st = concat (map (matches b) (matches a st))"

text \<open>
  \<open>s.match(r)\<close> for a regular expression without the g flag: the first match, trying each
  start position from the left.
\<close>

fun exec_from :: "re \<Rightarrow> nat option \<Rightarrow> jsstring \<Rightarrow> mstate option" where
  "exec_from r p [] =
     (case matches r \<lparr>prev = p, rest = [], caps = (\<lambda>n. None)\<rparr> of
        st # sts \<Rightarrow> Some st
      | [] \<Rightarrow> None)"
| "exec_from r p (c # cs) =
     (case matches r \<lparr>prev = p, rest = c # cs, caps = (\<lambda>n. None)\<rparr> of
        st # sts \<Rightarrow> Some st
      | [] \<Rightarrow> exec_from r (Some c) cs)"

definition str_match :: "re \<Rightarrow> jsstring \<Rightarrow> mstate option" where
  "str_match r s = exec_from r None s"


section \<open>Paths and the file system\<close>

text \<open>
  An absolute, normalised path is the list of its components. The file system is the tree
  that path resolution sees. A node is a regular file (its text as
  \<open>readFileSync(f, "utf-8")\<close> decodes it, and whether the process may read it), a directory
  (its permissions and its entries in \<open>readdirSync\<close> order), or an entry that does not
  resolve: a symbolic link whose target is missing or that loops, with the error
  \<open>statSync\<close> gives for it. A symbolic link that resolves stands in the tree as the node
  it resolves to.
\<close>

type_synonym path = "jsstring list"

datatype error =
    ENOENT | ENOTDIR | EISDIR | EACCES | EEXIST | EINVAL | ELOOP
  | TypeError | MissingArgument | UnknownTool jsstring

text \<open>
  The permissions of the process on a directory: listing its entries, creating an entry
  in it, and resolving a path through it.
\<close>

record mode =
  can_read :: bool
  can_write :: bool
  can_search :: bool

definition rwx :: mode where
  "rwx = \<lparr>can_read = True, can_write = True, can_search = True\<rparr>"

datatype node =
    File bool jsstring
  | Dir mode "(jsstring \<times> node) list"
  | Broken error

fun is_dir :: "node \<Rightarrow> bool" where
  "is_dir (Dir m es) = True"
| "is_dir (File r c) = False"
| "is_dir (Broken e) = False"

text \<open>The node at a path of the tree, permissions apart.\<close>

fun lookup :: "node \<Rightarrow> path \<Rightarrow> node option"
  and lookup_entries :: "(jsstring \<times> node) list \<Rightarrow> jsstring \<Rightarrow> path \<Rightarrow> node option" where
  "lookup n [] = Some n"
| "lookup (File r c) (s # p) = None"
| "lookup (Broken e) (s # p) = None"
| "lookup (Dir m es) (s # p) = lookup_entries es s p"
| "lookup_entries [] s p = None"
| "lookup_entries ((k, c) # es) s p = (if k = s then lookup c p else lookup_entries es s p)"

text \<open>
  Path resolution as the system calls do it: every directory on the way must grant search,
  a file on the way is \<open>ENOTDIR\<close>, a missing entry \<open>ENOENT\<close>, an unresolved entry on
  the way its own error. \<open>lstat\<close> does not resolve the last component, \<open>statSync\<close> does.
\<close>

fun lstat :: "node \<Rightarrow> path \<Rightarrow> error + node"
  and lstat_entries :: "(jsstring \<times> node) list \<Rightarrow> jsstring \<Rightarrow> path \<Rightarrow> error + node" where
  "lstat n [] = Inr n"
| "lstat (File r c) (s # p) = Inl ENOTDIR"
| "lstat (Broken e) (s # p) = Inl e"
| "lstat (Dir m es) (s # p) = (if can_search m then lstat_entries es s p else Inl EACCES)"
| "lstat_entries [] s p = Inl ENOENT"
| "lstat_entries ((k, c) # es) s p = (if k = s then lstat c p else lstat_entries es s p)"

definition statSync :: "node \<Rightarrow> path \<Rightarrow> error + node" where
  "statSync fs p =
     (case lstat fs p of
        Inl e \<Rightarrow> Inl e
      | Inr (Broken e) \<Rightarrow> Inl e
      | Inr n \<Rightarrow> Inr n)"

text \<open>\<open>fs.existsSync\<close> answers false on every error.\<close>

definition existsSync :: "node \<Rightarrow> path \<Rightarrow> bool" where
  "existsSync fs p = (case statSync fs p of Inl e \<Rightarrow> False | Inr n \<Rightarrow> True)"

definition readFileSync :: "node \<Rightarrow> path \<Rightarrow> error + jsstring" where
  "readFileSync fs p =
     (case statSync fs p of
        Inl e \<Rightarrow> Inl e
      | Inr (Dir m es) \<Rightarrow> Inl EISDIR
      | Inr (Broken e) \<Rightarrow> Inl e
      | Inr (File r c) \<Rightarrow> if r then Inr c else Inl EACCES)"

definition dirname :: "path \<Rightarrow> path" where
  "dirname p = butlast p"

definition basename :: "path \<Rightarrow> jsstring" where
  "basename p = (if p = [] then [] else last p)"

text \<open>
  \<open>path.relative(from, to)\<close>: the common components are dropped, each component left of
  \<open>from\<close> becomes \<open>..\<close>, and the result is written with the separator \<open>/\<close>.
\<close>

fun relative_parts :: "path \<Rightarrow> path \<Rightarrow> jsstring list" where
  "relative_parts (f # fs) (t # ts) =
     (if f = t then relative_parts fs ts else replicate (length (f # fs)) (js ''..'') @ (t # ts))"
| "relative_parts fs ts = replicate (length fs) (js ''..'') @ ts"

definition path_relative :: "path \<Rightarrow> path \<Rightarrow> jsstring" where
  "path_relative from to = arr_join (js ''/'') (relative_parts from to)"

text \<open>
  \<open>path.join(base, s)\<close> for a normalised absolute \<open>base\<close>: the components of \<open>s\<close> are
  appended, an empty component or \<open>.\<close> is skipped and \<open>..\<close> removes the last component.
\<close>

fun normalize_onto :: "path \<Rightarrow> jsstring list \<Rightarrow> path" where
  "normalize_onto acc [] = acc"
| "normalize_onto acc (s # ss) =
     (if s = [] \<or> s = js ''.'' then normalize_onto acc ss
      else if s = js ''..'' then normalize_onto (butlast acc) ss
      else normalize_onto (acc @ [s]) ss)"

definition path_join :: "path \<Rightarrow> jsstring \<Rightarrow> path" where
  "path_join base s = normalize_onto base (str_split 47 s)"

subsection \<open>walkSync\<close>

text \<open>
  \<open>fs.statSync(path.join(dir, file))\<close> (line 32) for an entry of a directory that resolved:
  the directory must grant search and the entry must resolve. An entry name is one path
  component, so \<open>path.join(dir, file)\<close> is \<open>dir @ [file]\<close>.
\<close>

definition stat_entry :: "mode \<Rightarrow> node \<Rightarrow> error + node" where
  "stat_entry m c =
     (if \<not> can_search m then Inl EACCES
      else (case c of Broken e \<Rightarrow> Inl e | File r t \<Rightarrow> Inr c | Dir m' es \<Rightarrow> Inr c))"

text \<open>
  \<open>walkSync(dir, filelist)\<close> (lines 26-39) on the node \<open>dir\<close> resolves to. \<open>readdirSync\<close>
  throws on a directory that cannot be read and on a file, \<open>statSync\<close> on an entry it
  cannot resolve; the walk has no handler, so the error leaves it. In the recursive call
  \<open>existsSync\<close> holds, the entry has just been resolved.
\<close>

fun walk_node :: "path \<Rightarrow> node \<Rightarrow> path list \<Rightarrow> error + path list"
  and walk_entries :: "path \<Rightarrow> mode \<Rightarrow> (jsstring \<times> node) list \<Rightarrow> path list \<Rightarrow> error + path list" where
  "walk_node dir (File r c) filelist = Inl ENOTDIR"
| "walk_node dir (Broken e) filelist = Inl e"
| "walk_node dir (Dir m es) filelist =
     (if can_read m then walk_entries dir m es filelist else Inl EACCES)"
| "walk_entries dir m [] filelist = Inr filelist"
| "walk_entries dir m ((file, c) # es) filelist =
     (case stat_entry m c of
        Inl e \<Rightarrow> Inl e
      | Inr n \<Rightarrow>
          if is_dir n
          then (case walk_node (dir @ [file]) c filelist of
                  Inl e \<Rightarrow> Inl e
                | Inr filelist' \<Rightarrow> walk_entries dir m es filelist')
          else walk_entries dir m es (filelist @ [dir @ [file]]))"

definition walkSync :: "node \<Rightarrow> path \<Rightarrow> path list \<Rightarrow> error + path list" where
  "walkSync fs dir filelist =
     (if \<not> existsSync fs dir then Inr filelist
      else (case statSync fs dir of
              Inl e \<Rightarrow> Inl e
            | Inr n \<Rightarrow> walk_node dir n filelist))"

section \<open>The catalog: findSkills\<close>

record skill =
  name :: jsstring
  path :: path
  description :: jsstring

text \<open>
  What the program takes from its surroundings: \<open>PLUGINS_DIR\<close>, \<open>os.homedir()\<close>, the
  host's \<open>String.prototype.localeCompare\<close> (negative, zero or positive), and the state in
  which a \<open>cpSync\<close> that throws leaves the file system (how far the host's copy got),
  from the state before, the source and the destination.
\<close>

record env =
  plugins_dir :: path
  homedir :: path
  localeCompare :: "jsstring \<Rightarrow> jsstring \<Rightarrow> int"
  partial_copy :: "node \<Rightarrow> path \<Rightarrow> path \<Rightarrow> node"

definition getGeminiSkillsDir :: "env \<Rightarrow> path" where
  "getGeminiSkillsDir ev = homedir ev @ [js ''.gemini'', js ''skills'']"

subsection \<open>The derived name (lines 51-72)\<close>

text \<open>The loop of lines 65-69: \<open>finalParts\<close> is never empty here, line 64 pushed its first element.\<close>

fun dedup_loop :: "jsstring list \<Rightarrow> jsstring list \<Rightarrow> jsstring list" where
  "dedup_loop [] finalParts = finalParts"
| "dedup_loop (p # ps) finalParts =
     (if p \<noteq> last finalParts then dedup_loop ps (finalParts @ [p]) else dedup_loop ps finalParts)"

definition final_parts :: "jsstring list \<Rightarrow> jsstring list" where
  "final_parts filteredParts =
     (case filteredParts of [] \<Rightarrow> [] | p # ps \<Rightarrow> dedup_loop ps [p])"

definition filtered_parts :: "jsstring list \<Rightarrow> jsstring list" where
  "filtered_parts parts = filter (\<lambda>p. p \<noteq> js ''skills'') parts"

definition rel_parts :: "path \<Rightarrow> path \<Rightarrow> jsstring list" where
  "rel_parts plugins skillFile = str_split 47 (path_relative plugins (dirname skillFile))"

definition skill_name :: "path \<Rightarrow> path \<Rightarrow> jsstring" where
  "skill_name plugins skillFile =
     arr_join (js ''-'') (final_parts (filtered_parts (rel_parts plugins skillFile)))"

subsection \<open>The description (lines 74-111)\<close>

definition placeholder :: jsstring where
  "placeholder = js ''No description available.''"

text \<open>\<open>/^---\s*\n([\s\S]*?)\n---\s*\n/\<close>\<close>

definition frontmatter_re :: re where
  "frontmatter_re =
     Seq (Bol False) (Seq (Lit (js ''---'')) (Seq (StarG is_space) (Seq (Lit [10])
       (Seq (Grp 1 (StarL any_unit)) (Seq (Lit (10 # js ''---'')) (Seq (StarG is_space) (Lit [10])))))))"

text \<open>\<open>/^description:\s*(>)?\s*(.+)$/m\<close>\<close>

definition description_re :: re where
  "description_re =
     Seq (Bol True) (Seq (Lit (js ''description:'')) (Seq (StarG is_space) (Seq (Opt (Grp 1 (Lit (js ''>''))))
       (Seq (StarG is_space) (Seq (Grp 2 (PlusG dot)) (Eol True))))))"

text \<open>\<open>/^description:\s*>/\<close>\<close>

definition folded_line_re :: re where
  "folded_line_re = Seq (Bol False) (Seq (Lit (js ''description:'')) (Seq (StarG is_space) (Lit (js ''>''))))"

text \<open>The loop of lines 89-102 over the header's lines, with \<open>capturing\<close> and \<open>descLines\<close>.\<close>

fun folded_loop :: "jsstring list \<Rightarrow> bool \<Rightarrow> jsstring list \<Rightarrow> jsstring list" where
  "folded_loop [] capturing descLines = descLines"
| "folded_loop (line # ls) capturing descLines =
     (if str_match folded_line_re line \<noteq> None then folded_loop ls True descLines
      else if capturing then
        (if length (str_trim line) = 0 then folded_loop ls capturing descLines
         else if prefix (js ''  '') line then folded_loop ls capturing (descLines @ [str_trim line])
         else descLines)
      else folded_loop ls capturing descLines)"

text \<open>
  Lines 79-108 on the file's text. A capture that did not take part is \<open>undefined\<close>; calling
  \<open>match\<close> or \<open>trim\<close> on it throws inside the \<open>try\<close>, which leaves the placeholder.
\<close>

definition parse_description :: "jsstring \<Rightarrow> jsstring" where
  "parse_description content =
     (case str_match frontmatter_re content of
        None \<Rightarrow> placeholder
      | Some m \<Rightarrow>
          (case caps m 1 of
             None \<Rightarrow> placeholder
           | Some yamlText \<Rightarrow>
               (case str_match description_re yamlText of
                  None \<Rightarrow> placeholder
                | Some descMatch \<Rightarrow>
                    if caps descMatch 1 = Some (js ''>'')
                    then arr_join (js '' '') (folded_loop (str_split 10 yamlText) False [])
                    else (case caps descMatch 2 of
                            None \<Rightarrow> placeholder
                          | Some v \<Rightarrow> str_trim v))))"

text \<open>Lines 75-111: a failing read is caught and leaves the placeholder.\<close>

definition read_description :: "node \<Rightarrow> path \<Rightarrow> jsstring" where
  "read_description fs skillFile =
     (case readFileSync fs skillFile of
        Inl e \<Rightarrow> placeholder
      | Inr content \<Rightarrow> parse_description content)"

subsection \<open>Sorting and the catalog (lines 41-123)\<close>

text \<open>
  \<open>Array.prototype.sort\<close> with a comparison function is a stable sort; on a consistent
  comparison function every stable sort gives the same array. The model is insertion from
  the right, which keeps an element before the equal ones that came after it.
\<close>

fun insert_by :: "('a \<Rightarrow> 'a \<Rightarrow> int) \<Rightarrow> 'a \<Rightarrow> 'a list \<Rightarrow> 'a list" where
  "insert_by cmp x [] = [x]"
| "insert_by cmp x (y # ys) = (if cmp x y \<le> 0 then x # y # ys else y # insert_by cmp x ys)"

definition sort_by :: "('a \<Rightarrow> 'a \<Rightarrow> int) \<Rightarrow> 'a list \<Rightarrow> 'a list" where
  "sort_by cmp xs = foldr (insert_by cmp) xs []"

definition make_skill :: "env \<Rightarrow> node \<Rightarrow> path \<Rightarrow> skill" where
  "make_skill ev fs skillFile =
     \<lparr>name = skill_name (plugins_dir ev) skillFile,
      path = dirname skillFile,
      description = read_description fs skillFile\<rparr>"

definition by_name :: "env \<Rightarrow> skill \<Rightarrow> skill \<Rightarrow> int" where
  "by_name ev a b = localeCompare ev (name a) (name b)"

definition skill_files :: "path list \<Rightarrow> path list" where
  "skill_files allFiles = filter (\<lambda>f. basename f = js ''SKILL.md'') allFiles"

definition findSkills :: "env \<Rightarrow> node \<Rightarrow> error + skill list" where
  "findSkills ev fs =
     (if \<not> existsSync fs (plugins_dir ev) then Inr []
      else (case walkSync fs (plugins_dir ev) [] of
              Inl e \<Rightarrow> Inl e
            | Inr allFiles \<Rightarrow>
                Inr (sort_by (by_name ev) (map (make_skill ev fs) (skill_files allFiles)))))"

text \<open>\<open>handleListSkills\<close> (lines 125-138).\<close>

definition handleListSkills :: "env \<Rightarrow> node \<Rightarrow> error + jsstring" where
  "handleListSkills ev fs =
     (case findSkills ev fs of
        Inl e \<Rightarrow> Inl e
      | Inr skills \<Rightarrow>
          Inr (if length skills = 0 then js ''No skills found in the plugins directory.''
               else arr_join [10]
                      ((js ''# Available Skills'' @ [10]) #
                       concat (map (\<lambda>s. [js ''- **'' @ name s @ js ''**:'', js ''  '' @ description s]) skills))))"


section \<open>Installing: handleInstallSkill\<close>

subsection \<open>mkdirSync and cpSync\<close>

text \<open>The directories \<open>mkdirSync(p, {recursive: true})\<close> creates below an existing one.\<close>

fun fresh_dirs :: "path \<Rightarrow> node" where
  "fresh_dirs [] = Dir rwx []"
| "fresh_dirs (s # p) = Dir rwx [(s, fresh_dirs p)]"

text \<open>
  \<open>mkdirSync(p, {recursive: true})\<close>: the missing directories of \<open>p\<close> are created in the
  last directory of \<open>p\<close> that exists, which must grant writing; the directories on the way
  must grant search. A file on the way, or an entry that does not resolve, is an error
  and nothing is created.
\<close>

fun mkdir_node :: "node \<Rightarrow> path \<Rightarrow> error + node"
  and mkdir_entries ::
    "mode \<Rightarrow> (jsstring \<times> node) list \<Rightarrow> jsstring \<Rightarrow> path \<Rightarrow> error + (jsstring \<times> node) list" where
  "mkdir_node (File r c) p = (if p = [] then Inl EEXIST else Inl ENOTDIR)"
| "mkdir_node (Broken e) p = Inl e"
| "mkdir_node (Dir m es) [] = Inr (Dir m es)"
| "mkdir_node (Dir m es) (s # p) =
     (if \<not> can_search m then Inl EACCES
      else (case mkdir_entries m es s p of Inl e \<Rightarrow> Inl e | Inr es' \<Rightarrow> Inr (Dir m es')))"
| "mkdir_entries m [] s p = (if can_write m then Inr [(s, fresh_dirs p)] else Inl EACCES)"
| "mkdir_entries m ((k, c) # es) s p =
     (if k = s
      then (case mkdir_node c p of Inl e \<Rightarrow> Inl e | Inr c' \<Rightarrow> Inr ((k, c') # es))
      else (case mkdir_entries m es s p of Inl e \<Rightarrow> Inl e | Inr es' \<Rightarrow> Inr ((k, c) # es')))"

definition mkdirSync_recursive :: "node \<Rightarrow> path \<Rightarrow> error + node" where
  "mkdirSync_recursive fs p = mkdir_node fs p"

text \<open>
  Writing node \<open>n\<close> at path \<open>p\<close>: the directories on the way must grant search, and a new
  entry needs a parent directory that grants writing.
\<close>

fun set_entry :: "jsstring \<Rightarrow> node \<Rightarrow> (jsstring \<times> node) list \<Rightarrow> (jsstring \<times> node) list" where
  "set_entry s n [] = [(s, n)]"
| "set_entry s n ((k, c) # es) = (if k = s then (k, n) # es else (k, c) # set_entry s n es)"

fun put :: "node \<Rightarrow> path \<Rightarrow> node \<Rightarrow> error + node"
  and put_entries ::
    "mode \<Rightarrow> (jsstring \<times> node) list \<Rightarrow> jsstring \<Rightarrow> path \<Rightarrow> node \<Rightarrow> error + (jsstring \<times> node) list" where
  "put t [] n = Inr n"
| "put (File r c) (s # p) n = Inl ENOTDIR"
| "put (Broken e) (s # p) n = Inl e"
| "put (Dir m es) (s # p) n =
     (if \<not> can_search m then Inl EACCES
      else (case put_entries m es s p n of Inl e \<Rightarrow> Inl e | Inr es' \<Rightarrow> Inr (Dir m es')))"
| "put_entries m [] s p n =
     (if p \<noteq> [] then Inl ENOENT else if can_write m then Inr [(s, n)] else Inl EACCES)"
| "put_entries m ((k, c) # es) s p n =
     (if k = s
      then (case put c p n of Inl e \<Rightarrow> Inl e | Inr c' \<Rightarrow> Inr ((k, c') # es))
      else (case put_entries m es s p n of Inl e \<Rightarrow> Inl e | Inr es' \<Rightarrow> Inr ((k, c) # es')))"

text \<open>
  The recursive copy of \<open>cpSync(src, dest, {recursive: true})\<close> of a source node onto what
  is at the destination: nothing, or a node the copy merges into, files overwritten. A
  file is copied when it can be read; a directory is copied when it can be read and, if
  it has entries, searched, and the copy has its permissions; a link that does not
  resolve is copied as the link it is. A new entry in a directory that was at the
  destination before needs that directory to grant writing. The result is what is at the
  destination after a copy that succeeds; what a copy that fails leaves behind is not
  determined here.
\<close>

fun overlay :: "node \<Rightarrow> node option \<Rightarrow> error + node"
  and overlay_entries ::
    "bool \<Rightarrow> (jsstring \<times> node) list \<Rightarrow> (jsstring \<times> node) list \<Rightarrow> error + (jsstring \<times> node) list" where
  "overlay (File r c) None = (if r then Inr (File r c) else Inl EACCES)"
| "overlay (File r c) (Some (File r' c')) = (if r then Inr (File r c) else Inl EACCES)"
| "overlay (File r c) (Some (Broken e')) = (if r then Inr (File r c) else Inl EACCES)"
| "overlay (File r c) (Some (Dir m' es')) = Inl EISDIR"
| "overlay (Broken e) None = Inr (Broken e)"
| "overlay (Broken e) (Some (Broken e')) = Inr (Broken e)"
| "overlay (Broken e) (Some (File r' c')) = Inl EEXIST"
| "overlay (Broken e) (Some (Dir m' es')) = Inl EEXIST"
| "overlay (Dir m es) None =
     (if can_read m \<and> (es = [] \<or> can_search m)
      then (case overlay_entries True es [] of Inl e \<Rightarrow> Inl e | Inr es'' \<Rightarrow> Inr (Dir m es''))
      else Inl EACCES)"
| "overlay (Dir m es) (Some (File r' c')) = Inl ENOTDIR"
| "overlay (Dir m es) (Some (Broken e')) = Inl ENOTDIR"
| "overlay (Dir m es) (Some (Dir m' es')) =
     (if can_read m \<and> (es = [] \<or> (can_search m \<and> can_search m'))
      then (case overlay_entries (can_write m') es es' of
              Inl e \<Rightarrow> Inl e
            | Inr es'' \<Rightarrow> Inr (Dir m' es''))
      else Inl EACCES)"
| "overlay_entries w [] des = Inr des"
| "overlay_entries w ((k, c) # es) des =
     (if lookup_entries des k [] = None \<and> \<not> w then Inl EACCES
      else (case overlay c (lookup_entries des k []) of
              Inl e \<Rightarrow> Inl e
            | Inr c' \<Rightarrow> overlay_entries w es (set_entry k c' des)))"

text \<open>
  \<open>cpSync(src, dest, {recursive: true})\<close>: the source must be there, the destination is
  looked at (any error but its absence is thrown) and must not lie in the source, a
  missing parent of the destination is created, then the copy runs. The result is the
  error thrown or the file system after the copy.
\<close>

definition cpSync :: "node \<Rightarrow> path \<Rightarrow> path \<Rightarrow> error + node" where
  "cpSync fs src dest =
     (case lstat fs src of
        Inl e \<Rightarrow> Inl e
      | Inr n \<Rightarrow>
          (case (case lstat fs dest of
                   Inl e \<Rightarrow> if e = ENOENT then Inr None else Inl e
                 | Inr d \<Rightarrow> Inr (Some d)) of
             Inl e \<Rightarrow> Inl e
           | Inr dopt \<Rightarrow>
               if prefix src dest then Inl EINVAL
               else (case (if \<not> existsSync fs (dirname dest)
                           then mkdirSync_recursive fs (dirname dest) else Inr fs) of
                       Inl e \<Rightarrow> Inl e
                     | Inr fs1 \<Rightarrow>
                         (case overlay n dopt of
                            Inl e \<Rightarrow> Inl e
                          | Inr n' \<Rightarrow> put fs1 dest n'))))"

subsection \<open>handleInstallSkill (lines 140-170)\<close>

text \<open>A value of a tool argument, as far as the program tells values apart.\<close>

datatype jsval = JUndefined | JNull | JBool bool | JNum int | JStr jsstring | JObject

fun truthy :: "jsval \<Rightarrow> bool" where
  "truthy JUndefined = False"
| "truthy JNull = False"
| "truthy (JBool b) = b"
| "truthy (JNum i) = (i \<noteq> 0)"
| "truthy (JStr s) = (s \<noteq> [])"
| "truthy JObject = True"

text \<open>
  The message \<open>handleInstallSkill\<close> returns, by the \<open>return\<close> statement that builds it:
  line 145 (\<open>NotFound\<close>), line 152 (\<open>AlreadyInstalled\<close>, with \<open>destDir\<close>), line 160
  (\<open>ErrorCreatingDir\<close>), line 166 (\<open>Installed\<close>, with \<open>destDir\<close>) and line 168
  (\<open>ErrorInstalling\<close>). The last two error messages are the outcome the specification
  calls \<open>InstallError\<close>.
\<close>

datatype outcome =
    NotFound
  | AlreadyInstalled path
  | ErrorCreatingDir error
  | Installed path
  | ErrorInstalling error

text \<open>
  The function returns its message and leaves the file system in a new state; an error
  of \<open>findSkills\<close> is not caught. \<open>s.name === skillName\<close> holds only for a string argument;
  \<open>path.join\<close> throws a \<open>TypeError\<close> on any other.
\<close>

definition handleInstallSkill :: "env \<Rightarrow> node \<Rightarrow> jsval \<Rightarrow> error + outcome \<times> node" where
  "handleInstallSkill ev fs skillName =
     (case findSkills ev fs of
        Inl e \<Rightarrow> Inl e
      | Inr skills \<Rightarrow>
          (case find (\<lambda>s. JStr (name s) = skillName) skills of
             None \<Rightarrow> Inr (NotFound, fs)
           | Some targetSkill \<Rightarrow>
               (case skillName of
                  JStr nm \<Rightarrow>
                    (let destBase = getGeminiSkillsDir ev;
                         destDir = path_join destBase nm
                     in if existsSync fs destDir then Inr (AlreadyInstalled destDir, fs)
                        else (case (if \<not> existsSync fs destBase then mkdirSync_recursive fs destBase
                                    else Inr fs) of
                                Inl e \<Rightarrow> Inr (ErrorCreatingDir e, fs)
                              | Inr fs1 \<Rightarrow>
                                  (case cpSync fs1 (path targetSkill) destDir of
                                     Inr fs2 \<Rightarrow> Inr (Installed destDir, fs2)
                                   | Inl e \<Rightarrow>
                                       Inr (ErrorInstalling e,
                                            partial_copy ev fs1 (path targetSkill) destDir))))
                | _ \<Rightarrow> Inl TypeError)))"

section \<open>The request handler (lines 214-234)\<close>

datatype reply = Listing jsstring | InstallMessage outcome

text \<open>
  \<open>args\<close> is the request's \<open>arguments\<close> object, absent when the request has none;
  destructuring an absent object throws a \<open>TypeError\<close>.
\<close>

definition call_tool ::
  "env \<Rightarrow> node \<Rightarrow> jsstring \<Rightarrow> (jsstring \<Rightarrow> jsval option) option \<Rightarrow> error + reply \<times> node" where
  "call_tool ev fs tool args =
     (if tool = js ''list_marketplace_skills'' then
        (case handleListSkills ev fs of Inl e \<Rightarrow> Inl e | Inr text \<Rightarrow> Inr (Listing text, fs))
      else if tool = js ''install_marketplace_skill'' then
        (case args of
           None \<Rightarrow> Inl TypeError
         | Some a \<Rightarrow>
             (let skill_name_arg = (case a (js ''skill_name'') of None \<Rightarrow> JUndefined | Some v \<Rightarrow> v)
              in if \<not> truthy skill_name_arg then Inl MissingArgument
                 else (case handleInstallSkill ev fs skill_name_arg of
                         Inl e \<Rightarrow> Inl e
                       | Inr (msg, fs') \<Rightarrow> Inr (InstallMessage msg, fs'))))
      else Inl (UnknownTool tool))"


section \<open>Notions used in the statements\<close>

text \<open>
  A comparison function is consistent when any two values are comparable and the order
  it induces is transitive; \<open>localeCompare\<close> is.
\<close>

definition consistent :: "('a \<Rightarrow> 'a \<Rightarrow> int) \<Rightarrow> bool" where
  "consistent cmp =
     ((\<forall>a b. cmp a b \<le> 0 \<or> cmp b a \<le> 0) \<and>
      (\<forall>a b c. cmp a b \<le> 0 \<longrightarrow> cmp b c \<le> 0 \<longrightarrow> cmp a c \<le> 0))"

text \<open>
  The walk gets through a tree: every directory can be read, every directory that has
  entries can be searched, and every entry resolves.
\<close>

fun walkable :: "node \<Rightarrow> bool"
  and walkable_entries :: "(jsstring \<times> node) list \<Rightarrow> bool" where
  "walkable (File r c) = True"
| "walkable (Broken e) = False"
| "walkable (Dir m es) = (can_read m \<and> (es = [] \<or> can_search m) \<and> walkable_entries es)"
| "walkable_entries [] = True"
| "walkable_entries ((k, c) # es) = (walkable c \<and> walkable_entries es)"

text \<open>The files of a tree in the order of the walk, as paths below \<open>dir\<close>.\<close>

fun files_of :: "path \<Rightarrow> node \<Rightarrow> path list"
  and files_of_entries :: "path \<Rightarrow> (jsstring \<times> node) list \<Rightarrow> path list" where
  "files_of dir (File r c) = []"
| "files_of dir (Broken e) = []"
| "files_of dir (Dir m es) = files_of_entries dir es"
| "files_of_entries dir [] = []"
| "files_of_entries dir ((k, c) # es) =
     (if is_dir c then files_of (dir @ [k]) c else [dir @ [k]]) @ files_of_entries dir es"

text \<open>A tree holds a marker file: an entry \<open>SKILL.md\<close> that is not a directory.\<close>

fun has_marker :: "node \<Rightarrow> bool"
  and has_marker_entries :: "(jsstring \<times> node) list \<Rightarrow> bool" where
  "has_marker (File r c) = False"
| "has_marker (Broken e) = False"
| "has_marker (Dir m es) = has_marker_entries es"
| "has_marker_entries [] = False"
| "has_marker_entries ((k, c) # es) =
     ((if is_dir c then has_marker c else k = js ''SKILL.md'') \<or> has_marker_entries es)"

text \<open>The name of the install tool.\<close>

definition install_tool :: jsstring where
  "install_tool = js ''install_marketplace_skill''"

text \<open>Lines 156-162: the skills directory is created when it is not there.\<close>

definition ensure_base :: "env \<Rightarrow> node \<Rightarrow> error + node" where
  "ensure_base ev fs =
     (if \<not> existsSync fs (getGeminiSkillsDir ev)
      then mkdirSync_recursive fs (getGeminiSkillsDir ev) else Inr fs)"

subsection \<open>Concrete inputs\<close>

text \<open>A consistent comparison function: code units from the left, a prefix first.\<close>

fun unit_compare :: "jsstring \<Rightarrow> jsstring \<Rightarrow> int" where
  "unit_compare [] [] = 0"
| "unit_compare [] (y # ys) = - 1"
| "unit_compare (x # xs) [] = 1"
| "unit_compare (x # xs) (y # ys) =
     (if x < y then - 1 else if y < x then 1 else unit_compare xs ys)"

text \<open>
  A file system with one skill, \<open>plugins/tools/skills/tools\<close>, holding the two files
  \<open>SKILL.md\<close> and \<open>resource.txt\<close>, and an empty home directory.
\<close>

definition demo_env :: env where
  "demo_env = \<lparr>plugins_dir = [js ''plugins''], homedir = [js ''home''],
      localeCompare = unit_compare, partial_copy = (\<lambda>fs src dest. fs)\<rparr>"

definition demo_skill_dir :: node where
  "demo_skill_dir = Dir rwx
     [(js ''SKILL.md'', File True (js ''---\<newline>description: Hello world\<newline>---\<newline>'')),
      (js ''resource.txt'', File True (js ''data''))]"

definition demo_plugins :: node where
  "demo_plugins = Dir rwx
     [(js ''tools'', Dir rwx [(js ''skills'', Dir rwx [(js ''tools'', demo_skill_dir)])]),
      (js ''README.md'', File True (js ''x''))]"

definition demo_fs :: node where
  "demo_fs = Dir rwx [(js ''plugins'', demo_plugins), (js ''home'', Dir rwx [])]"

definition demo_skill :: skill where
  "demo_skill = \<lparr>name = js ''tools'',
      path = [js ''plugins'', js ''tools'', js ''skills'', js ''tools''],
      description = js ''Hello world''\<rparr>"

text \<open>
  Plugins directories without a marker file: one that is fine, one that cannot be read,
  one with a subdirectory that cannot be read, one with a link whose target is missing,
  and one that is a regular file.
\<close>

definition no_marker_fs :: node where
  "no_marker_fs = Dir rwx [(js ''plugins'', Dir rwx [(js ''README.md'', File True (js ''x''))])]"

definition locked_fs :: node where
  "locked_fs = Dir rwx [(js ''plugins'', Dir (rwx\<lparr>can_read := False\<rparr>) [])]"

definition locked_below_fs :: node where
  "locked_below_fs = Dir rwx
     [(js ''plugins'', Dir rwx [(js ''README.md'', File True (js ''x'')),
                               (js ''private'', Dir (rwx\<lparr>can_read := False\<rparr>) [])])]"

definition dangling_fs :: node where
  "dangling_fs = Dir rwx
     [(js ''plugins'', Dir rwx [(js ''README.md'', File True (js ''x'')),
                               (js ''gone'', Broken ENOENT)])]"

definition file_fs :: node where
  "file_fs = Dir rwx [(js ''plugins'', File True (js ''x''))]"

text \<open>
  Four marker files found in the order \<open>zeta\<close>, \<open>beta\<close>, \<open>beta/beta\<close>, \<open>alpha\<close>; the
  second and the third give the same name.
\<close>

definition sort_fs :: node where
  "sort_fs = Dir rwx
     [(js ''plugins'', Dir rwx
        [(js ''zeta'', Dir rwx [(js ''SKILL.md'', File True [])]),
         (js ''beta'', Dir rwx [(js ''SKILL.md'', File True []),
                               (js ''beta'', Dir rwx [(js ''SKILL.md'', File True [])])]),
         (js ''alpha'', Dir rwx [(js ''SKILL.md'', File True [])])])]"

definition sort_found :: "skill list" where
  "sort_found =
     [\<lparr>name = js ''zeta'', path = [js ''plugins'', js ''zeta''],
       description = js ''No description available.''\<rparr>,
      \<lparr>name = js ''beta'', path = [js ''plugins'', js ''beta''],
       description = js ''No description available.''\<rparr>,
      \<lparr>name = js ''beta'', path = [js ''plugins'', js ''beta'', js ''beta''],
       description = js ''No description available.''\<rparr>,
      \<lparr>name = js ''alpha'', path = [js ''plugins'', js ''alpha''],
       description = js ''No description available.''\<rparr>]"

definition sort_catalog :: "skill list" where
  "sort_catalog =
     [\<lparr>name = js ''alpha'', path = [js ''plugins'', js ''alpha''],
       description = js ''No description available.''\<rparr>,
      \<lparr>name = js ''beta'', path = [js ''plugins'', js ''beta''],
       description = js ''No description available.''\<rparr>,
      \<lparr>name = js ''beta'', path = [js ''plugins'', js ''beta'', js ''beta''],
       description = js ''No description available.''\<rparr>,
      \<lparr>name = js ''zeta'', path = [js ''plugins'', js ''zeta''],
       description = js ''No description available.''\<rparr>]"

subsection \<open>Notions about the text of a marker file\<close>


text \<open>
  The header has a description key: \<open>description:\<close> stands at the start of the text or
  right after a line terminator, the places where \<open>^\<close> matches under the m flag.
\<close>

definition line_start :: "nat option \<Rightarrow> bool" where
  "line_start p = (case p of None \<Rightarrow> True | Some c \<Rightarrow> is_line_terminator c)"

fun has_key_from :: "nat option \<Rightarrow> jsstring \<Rightarrow> bool" where
  "has_key_from p [] = False"
| "has_key_from p (c # cs) =
     ((line_start p \<and> prefix (js ''description:'') (c # cs)) \<or> has_key_from (Some c) cs)"

definition has_description_key :: "jsstring \<Rightarrow> bool" where
  "has_description_key y = has_key_from None y"

text \<open>
  Every line after the first that begins with \<open>---\<close> is the last line and has no newline
  after it.
\<close>

fun unterminated :: "jsstring \<Rightarrow> bool" where
  "unterminated [] = True"
| "unterminated (c # cs) =
     ((prefix (10 # js ''---'') (c # cs) \<longrightarrow> 10 \<notin> set (drop 3 cs)) \<and> unterminated cs)"

text \<open>
  The two halves of \<open>parse_description\<close>: the header text the first pattern captures, and
  the description lines 82-107 read from a header text.
\<close>

definition header_text :: "jsstring \<Rightarrow> jsstring option" where
  "header_text content =
     (case str_match frontmatter_re content of None \<Rightarrow> None | Some m \<Rightarrow> caps m 1)"

definition describe_header :: "jsstring \<Rightarrow> jsstring" where
  "describe_header yamlText =
     (case str_match description_re yamlText of
        None \<Rightarrow> placeholder
      | Some descMatch \<Rightarrow>
          if caps descMatch 1 = Some (js ''>'')
          then arr_join (js '' '') (folded_loop (str_split 10 yamlText) False [])
          else (case caps descMatch 2 of None \<Rightarrow> placeholder | Some v \<Rightarrow> str_trim v))"


subsection \<open>Notions about file systems\<close>

text \<open>
  \<open>grows t t'\<close>: \<open>t'\<close> has every entry of \<open>t\<close> at its place, a file where \<open>t\<close> has a file
  and a directory with the same permissions where \<open>t\<close> has a directory; whatever \<open>t'\<close>
  has more is a tree the walk gets through, in a directory that can be searched.
\<close>

fun grows :: "node \<Rightarrow> node \<Rightarrow> bool"
  and grows_entries :: "(jsstring \<times> node) list \<Rightarrow> (jsstring \<times> node) list \<Rightarrow> bool" where
  "grows (File r c) (File r' c') = True"
| "grows (Dir m es) (Dir m' es') =
     (m = m' \<and> grows_entries es es' \<and> (es = [] \<longrightarrow> es' = [] \<or> can_search m))"
| "grows (Broken e) n' = True"
| "grows (File r c) (Dir m' es') = False"
| "grows (File r c) (Broken e') = False"
| "grows (Dir m es) (File r' c') = False"
| "grows (Dir m es) (Broken e') = False"
| "grows_entries [] es' = walkable_entries es'"
| "grows_entries ((k, c) # es) [] = False"
| "grows_entries ((k, c) # es) ((k', c') # es') = (k = k' \<and> grows c c' \<and> grows_entries es es')"

text \<open>No directory of the tree has two entries of one name.\<close>

fun distinct_names :: "node \<Rightarrow> bool"
  and distinct_names_entries :: "(jsstring \<times> node) list \<Rightarrow> bool" where
  "distinct_names (File r c) = True"
| "distinct_names (Broken e) = True"
| "distinct_names (Dir m es) = distinct_names_entries es"
| "distinct_names_entries [] = True"
| "distinct_names_entries ((k, c) # es) =
     (k \<notin> fst ` set es \<and> distinct_names c \<and> distinct_names_entries es)"

text \<open>
  The destination of the skill \<open>tools\<close>, the file system after installing it, a file
  system in which \<open>.gemini\<close> in the home directory is a regular file, one whose home
  directory does not grant writing, and one in which a file of the skill cannot be read.
\<close>

definition demo_dest :: path where
  "demo_dest = [js ''home'', js ''.gemini'', js ''skills'', js ''tools'']"

definition demo_installed_fs :: node where
  "demo_installed_fs = Dir rwx
     [(js ''plugins'', demo_plugins),
      (js ''home'', Dir rwx [(js ''.gemini'', Dir rwx [(js ''skills'', Dir rwx [(js ''tools'', demo_skill_dir)])])])]"

definition blocked_fs :: node where
  "blocked_fs = Dir rwx
     [(js ''plugins'', demo_plugins), (js ''home'', Dir rwx [(js ''.gemini'', File True [])])]"

definition readonly_home_fs :: node where
  "readonly_home_fs = Dir rwx
     [(js ''plugins'', demo_plugins), (js ''home'', Dir (rwx\<lparr>can_write := False\<rparr>) [])]"

definition secret_fs :: node where
  "secret_fs = Dir rwx
     [(js ''plugins'', Dir rwx
        [(js ''tools'', Dir rwx
           [(js ''SKILL.md'', File True (js ''---\<newline>description: Hello world\<newline>---\<newline>'')),
            (js ''resource.txt'', File False (js ''data''))])]),
      (js ''home'', Dir rwx [])]"

text \<open>A string that is one path component: not empty, without separator, neither \<open>.\<close> nor \<open>..\<close>.\<close>

definition component :: "jsstring \<Rightarrow> bool" where
  "component s = (s \<noteq> [] \<and> 47 \<notin> set s \<and> s \<noteq> js ''.'' \<and> s \<noteq> js ''..'')"

subsection \<open>Notions about matching\<close>

text \<open>The match the engine reports from a state: the first one backtracking finds.\<close>

definition first_match :: "re \<Rightarrow> mstate \<Rightarrow> mstate option" where
  "first_match r st = (case matches r st of [] \<Rightarrow> None | x # xs \<Rightarrow> Some x)"

text \<open>The capture groups of a pattern.\<close>

fun groups :: "re \<Rightarrow> nat set" where
  "groups (Opt r) = groups r"
| "groups (Grp n r) = insert n (groups r)"
| "groups (Seq a b) = groups a \<union> groups b"
| "groups r = {}"

subsection \<open>Notions about the description\<close>

text \<open>
  A header line is blank when nothing is left of it after trimming (line 95), and
  indented when it begins with two spaces (line 96).
\<close>

definition blank :: "jsstring \<Rightarrow> bool" where
  "blank l = (str_trim l = [])"

definition indented :: "jsstring \<Rightarrow> bool" where
  "indented l = prefix (js ''  '') l"

text \<open>
  The description as claim C4 words it, from the text \<open>v\<close> after the colon of the
  \<open>description:\<close> line and the header lines \<open>post\<close> after that line: under the indicator
  \<open>>\<close> alone, the lines indented by two spaces up to the first blank or unindented one,
  trimmed and joined by a space; otherwise the rest of the line, trimmed.
\<close>

definition claimed_description :: "jsstring \<Rightarrow> jsstring list \<Rightarrow> jsstring" where
  "claimed_description v post =
     (if str_trim v = js ''>''
      then arr_join (js '' '') (map str_trim (takeWhile (\<lambda>l. indented l \<and> \<not> blank l) post))
      else str_trim v)"

text \<open>
  The same with blank lines passed over: under the indicator, of the lines that are blank
  or indented up to the first line that is neither, those that are not blank, trimmed
  and joined by a space.
\<close>

definition amended_description :: "jsstring \<Rightarrow> jsstring list \<Rightarrow> jsstring" where
  "amended_description v post =
     (if str_trim v = js ''>''
      then arr_join (js '' '')
             (map str_trim (filter (\<lambda>l. \<not> blank l) (takeWhile (\<lambda>l. blank l \<or> indented l) post)))
      else str_trim v)"

text \<open>The line at which the continuation of a folded description stops, if there is one.\<close>

definition stop_line :: "jsstring list \<Rightarrow> jsstring option" where
  "stop_line post =
     (case dropWhile (\<lambda>l. blank l \<or> indented l) post of [] \<Rightarrow> None | l # ls \<Rightarrow> Some l)"

text \<open>
  The values and following lines the statement of C4 is about. Under the indicator: some
  code unit after the \<open>>\<close> is not a line terminator, and the line at which the
  continuation stops is not again a \<open>description: >\<close> line. For a blank value: the lines
  after it are blank and some code unit of the value or of these lines is not a line
  terminator. For any other value: it does not begin with \<open>>\<close>, and trimmed it holds no
  line terminator.
\<close>

definition covered :: "jsstring \<Rightarrow> jsstring list \<Rightarrow> bool" where
  "covered v post =
     (if str_trim v = js ''>''
      then (list_ex dot (tl (dropWhile is_space v)) \<or> list_ex (list_ex dot) post) \<and>
           (case stop_line post of None \<Rightarrow> True | Some l \<Rightarrow> str_match folded_line_re l = None)
      else if str_trim v = []
      then list_all blank post \<and> (list_ex dot v \<or> list_ex (list_ex dot) post)
      else hd (str_trim v) \<noteq> 62 \<and> list_all dot (str_trim v))"

text \<open>
  Marker files: a folded description with a blank line in it, an inline description, a
  header whose first line is indented, a folded description in a file with the line ends
  CR LF, and a description key with a blank value at the end of the header.
\<close>

definition folded_marker :: jsstring where
  "folded_marker =
     js ''---\<newline>description: >\<newline>  line one\<newline>\<newline>  line two\<newline>name: x\<newline>---\<newline>''"

definition inline_marker :: jsstring where
  "inline_marker = js ''---\<newline>name: x\<newline>description: Hello world\<newline>---\<newline>''"

definition indented_marker :: jsstring where
  "indented_marker = js ''---\<newline>  name: foo\<newline>description: x\<newline>---\<newline>''"

definition crlf_marker :: jsstring where
  "crlf_marker =
     js ''---'' @ [13, 10] @ js ''description: >'' @ [13, 10] @ js ''  a'' @ [13, 10] @
     js ''  b'' @ [13, 10] @ js ''---'' @ [13, 10]"

definition blank_value_marker :: jsstring where
  "blank_value_marker = js ''---\<newline>name: x\<newline>description: \<newline>---\<newline>''"

section \<open>Evaluation\<close>

lemmas regex_eval = str_match_def frontmatter_re_def description_re_def folded_line_re_def
  is_space_def any_unit_def dot_def is_line_terminator_def move_def

lemmas fs_eval = statSync_def existsSync_def readFileSync_def walkSync_def stat_entry_def rwx_def

lemmas catalog_eval = findSkills_def fs_eval skill_files_def basename_def
  dirname_def make_skill_def skill_name_def rel_parts_def path_relative_def filtered_parts_def
  final_parts_def read_description_def parse_description_def placeholder_def
  str_trim_def sort_by_def by_name_def

lemma unit_compare_total: "unit_compare a b \<le> 0 \<or> unit_compare b a \<le> 0"
  by (induction a b rule: unit_compare.induct) auto

lemma unit_compare_trans:
  "unit_compare a b \<le> 0 \<Longrightarrow> unit_compare b c \<le> 0 \<Longrightarrow> unit_compare a c \<le> 0"
proof (induction a b arbitrary: c rule: unit_compare.induct)
  case 1
  then show ?case by simp
next
  case (2 y ys)
  then show ?case by (cases c) auto
next
  case (3 x xs)
  then show ?case by simp
next
  case (4 x xs y ys)
  show ?case
  proof (cases c)
    case Nil
    with 4 show ?thesis by simp
  next
    case (Cons z zs)
    show ?thesis
    proof (cases "x < y")
      case True
      with 4 Cons show ?thesis by (simp split: if_splits)
    next
      case False
      with 4 Cons show ?thesis by (simp split: if_splits)
    qed
  qed
qed

lemma consistent_unit_compare: "consistent unit_compare"
  unfolding consistent_def using unit_compare_total unit_compare_trans by blast

lemma demo_walk: "walkSync demo_fs (plugins_dir demo_env) [] =
   Inr [[js ''plugins'', js ''tools'', js ''skills'', js ''tools'', js ''SKILL.md''],
        [js ''plugins'', js ''tools'', js ''skills'', js ''tools'', js ''resource.txt''],
        [js ''plugins'', js ''README.md'']]"
  by (simp add: demo_env_def demo_fs_def demo_plugins_def demo_skill_dir_def fs_eval js_def)

lemma demo_catalog: "findSkills demo_env demo_fs = Inr [demo_skill]"
  by (simp add: demo_env_def demo_fs_def demo_plugins_def demo_skill_dir_def demo_skill_def js_def catalog_eval regex_eval)

lemma sort_walk: "walkSync sort_fs (plugins_dir demo_env) [] =
   Inr [[js ''plugins'', js ''zeta'', js ''SKILL.md''],
        [js ''plugins'', js ''beta'', js ''SKILL.md''],
        [js ''plugins'', js ''beta'', js ''beta'', js ''SKILL.md''],
        [js ''plugins'', js ''alpha'', js ''SKILL.md'']]"
  by (simp add: demo_env_def sort_fs_def fs_eval js_def)

lemma sort_found_eq:
  "map (make_skill demo_env sort_fs)
     (skill_files [[js ''plugins'', js ''zeta'', js ''SKILL.md''],
        [js ''plugins'', js ''beta'', js ''SKILL.md''],
        [js ''plugins'', js ''beta'', js ''beta'', js ''SKILL.md''],
        [js ''plugins'', js ''alpha'', js ''SKILL.md'']]) = sort_found"
  by (simp add: demo_env_def sort_fs_def sort_found_def js_def catalog_eval regex_eval)

lemma sort_catalog_eq: "findSkills demo_env sort_fs = Inr sort_catalog"
  by (simp add: demo_env_def sort_fs_def sort_catalog_def js_def catalog_eval regex_eval)


section \<open>The derived name\<close>

lemma dedup_loop_eq:
  "fp \<noteq> [] \<Longrightarrow> dedup_loop ps fp = butlast fp @ remdups_adj (last fp # ps)"
proof (induction ps arbitrary: fp)
  case Nil
  then show ?case by simp
next
  case (Cons p ps)
  show ?case
  proof (cases "p = last fp")
    case True
    with Cons show ?thesis by simp
  next
    case False
    have "dedup_loop (p # ps) fp = dedup_loop ps (fp @ [p])" using False by simp
    also have "\<dots> = butlast (fp @ [p]) @ remdups_adj (last (fp @ [p]) # ps)"
      by (rule Cons.IH) simp
    also have "\<dots> = butlast fp @ remdups_adj (last fp # p # ps)"
      using False Cons.prems by simp
    finally show ?thesis .
  qed
qed

lemma final_parts_eq: "final_parts xs = remdups_adj xs"
  by (cases xs) (simp_all add: final_parts_def dedup_loop_eq)

section \<open>Sorting\<close>

lemma set_insert_by: "set (insert_by cmp x ys) = insert x (set ys)"
  by (induction ys) auto

lemma set_sort_by: "set (sort_by cmp xs) = set xs"
  by (induction xs) (simp_all add: sort_by_def set_insert_by)

lemma sorted_insert_by:
  assumes "consistent cmp" and "sorted_wrt (\<lambda>a b. cmp a b \<le> 0) ys"
  shows "sorted_wrt (\<lambda>a b. cmp a b \<le> 0) (insert_by cmp x ys)"
  using assms(2)
proof (induction ys)
  case Nil
  then show ?case by simp
next
  case (Cons y ys)
  from assms(1) have total: "\<And>a b. cmp a b \<le> 0 \<or> cmp b a \<le> 0"
    and trans: "\<And>a b c. cmp a b \<le> 0 \<Longrightarrow> cmp b c \<le> 0 \<Longrightarrow> cmp a c \<le> 0"
    unfolding consistent_def by blast+
  show ?case
  proof (cases "cmp x y \<le> 0")
    case True
    then have "\<forall>z\<in>set ys. cmp x z \<le> 0" using Cons.prems trans by auto
    with True Cons.prems show ?thesis by simp
  next
    case False
    then have "cmp y x \<le> 0" using total by blast
    with False Cons show ?thesis by (auto simp: set_insert_by)
  qed
qed

lemma sorted_sort_by:
  "consistent cmp \<Longrightarrow> sorted_wrt (\<lambda>a b. cmp a b \<le> 0) (sort_by cmp xs)"
  by (induction xs) (simp_all add: sort_by_def sorted_insert_by)

lemma filter_insert_by_in:
  "P x \<Longrightarrow> \<forall>y\<in>set ys. P y \<longrightarrow> cmp x y \<le> 0 \<Longrightarrow> filter P (insert_by cmp x ys) = x # filter P ys"
  by (induction ys) auto

lemma filter_insert_by_out:
  "\<not> P x \<Longrightarrow> filter P (insert_by cmp x ys) = filter P ys"
  by (induction ys) auto

lemma filter_sort_by:
  assumes "\<And>x y. P x \<Longrightarrow> P y \<Longrightarrow> cmp x y \<le> 0"
  shows "filter P (sort_by cmp xs) = filter P xs"
proof (induction xs)
  case Nil
  then show ?case by (simp add: sort_by_def)
next
  case (Cons x xs)
  have step: "sort_by cmp (x # xs) = insert_by cmp x (sort_by cmp xs)"
    by (simp add: sort_by_def)
  show ?case
  proof (cases "P x")
    case True
    then have "filter P (insert_by cmp x (sort_by cmp xs)) = x # filter P (sort_by cmp xs)"
      using assms by (intro filter_insert_by_in) auto
    with True Cons step show ?thesis by simp
  next
    case False
    with Cons step show ?thesis by (simp add: filter_insert_by_out)
  qed
qed

section \<open>The catalog\<close>

lemma findSkills_Inr:
  assumes "findSkills ev fs = Inr catalog"
  shows "\<exists>allFiles. walkSync fs (plugins_dir ev) [] = Inr allFiles \<and>
           catalog = sort_by (by_name ev) (map (make_skill ev fs) (skill_files allFiles))"
proof (cases "existsSync fs (plugins_dir ev)")
  case True
  with assms show ?thesis
    by (auto simp: findSkills_def split: sum.splits)
next
  case False
  then have "walkSync fs (plugins_dir ev) [] = Inr []"
    by (simp add: walkSync_def)
  moreover from False assms have "catalog = []" by (simp add: findSkills_def)
  ultimately show ?thesis by (simp add: skill_files_def sort_by_def)
qed


text \<open>
  C2: every entry of the catalog comes from a discovered marker file \<open>skillFile\<close>; its
  name is the relative path from the plugins directory to the directory of the marker,
  split at the separator, without the components equal to \<open>skills\<close>, without each
  component equal to the kept one before it, joined with \<open>-\<close>. So the components
  joined into the name never include \<open>skills\<close> and no two neighbours among them are
  equal.
\<close>

theorem derived_name:
  assumes "findSkills ev fs = Inr catalog" and "e \<in> set catalog"
  shows "\<exists>allFiles skillFile segs.
           walkSync fs (plugins_dir ev) [] = Inr allFiles \<and> skillFile \<in> set allFiles \<and>
           basename skillFile = js ''SKILL.md'' \<and> path e = dirname skillFile \<and>
           segs = remdups_adj (filter (\<lambda>p. p \<noteq> js ''skills'')
                    (str_split 47 (path_relative (plugins_dir ev) (dirname skillFile)))) \<and>
           name e = arr_join (js ''-'') segs \<and>
           js ''skills'' \<notin> set segs \<and> distinct_adj segs"
proof -
  from findSkills_Inr [OF assms(1)] obtain allFiles where
    w: "walkSync fs (plugins_dir ev) [] = Inr allFiles" and
    c: "catalog = sort_by (by_name ev) (map (make_skill ev fs) (skill_files allFiles))"
    by blast
  from assms(2) c obtain skillFile where
    f: "skillFile \<in> set (skill_files allFiles)" and e: "e = make_skill ev fs skillFile"
    by (auto simp: set_sort_by)
  from f have f1: "skillFile \<in> set allFiles" and f2: "basename skillFile = js ''SKILL.md''"
    by (simp_all add: skill_files_def)
  let ?segs = "remdups_adj (filter (\<lambda>p. p \<noteq> js ''skills'')
                    (str_split 47 (path_relative (plugins_dir ev) (dirname skillFile))))"
  have "name e = arr_join (js ''-'') ?segs"
    by (simp add: e make_skill_def skill_name_def final_parts_eq filtered_parts_def rel_parts_def)
  moreover have "path e = dirname skillFile" by (simp add: e make_skill_def)
  moreover have "js ''skills'' \<notin> set ?segs" by simp
  moreover have "distinct_adj ?segs" by simp
  ultimately show ?thesis using w f1 f2 by blast
qed

theorem derived_name_witness:
  "findSkills demo_env demo_fs = Inr [demo_skill] \<and> demo_skill \<in> set [demo_skill] \<and>
   (\<exists>allFiles skillFile segs.
      walkSync demo_fs (plugins_dir demo_env) [] = Inr allFiles \<and> skillFile \<in> set allFiles \<and>
      basename skillFile = js ''SKILL.md'' \<and> path demo_skill = dirname skillFile \<and>
      segs = remdups_adj (filter (\<lambda>p. p \<noteq> js ''skills'')
               (str_split 47 (path_relative (plugins_dir demo_env) (dirname skillFile)))) \<and>
      name demo_skill = arr_join (js ''-'') segs \<and>
      js ''skills'' \<notin> set segs \<and> distinct_adj segs)"
  using derived_name [OF demo_catalog, of demo_skill] demo_catalog by simp

text \<open>
  C8: for a consistent \<open>localeCompare\<close>, the catalog is in non-decreasing order of name,
  and the entries of any one name stand in the order in which the walk discovered them.
\<close>

theorem catalog_sorted:
  assumes "consistent (localeCompare ev)" and "findSkills ev fs = Inr catalog"
  shows "sorted_wrt (\<lambda>a b. localeCompare ev (name a) (name b) \<le> 0) catalog \<and>
         (\<exists>allFiles. walkSync fs (plugins_dir ev) [] = Inr allFiles \<and>
            (\<forall>n. filter (\<lambda>e. name e = n) catalog =
                 filter (\<lambda>e. name e = n) (map (make_skill ev fs) (skill_files allFiles))))"
proof -
  from findSkills_Inr [OF assms(2)] obtain allFiles where
    w: "walkSync fs (plugins_dir ev) [] = Inr allFiles" and
    c: "catalog = sort_by (by_name ev) (map (make_skill ev fs) (skill_files allFiles))"
    by blast
  from assms(1) have cons: "consistent (by_name ev)"
    unfolding consistent_def by_name_def by blast
  have refl: "localeCompare ev k k \<le> 0" for k
    using assms(1) unfolding consistent_def by blast
  have "sorted_wrt (\<lambda>a b. by_name ev a b \<le> 0) catalog"
    unfolding c by (rule sorted_sort_by [OF cons])
  then have s: "sorted_wrt (\<lambda>a b. localeCompare ev (name a) (name b) \<le> 0) catalog"
    by (simp add: by_name_def)
  have "filter (\<lambda>e. name e = n) catalog =
        filter (\<lambda>e. name e = n) (map (make_skill ev fs) (skill_files allFiles))" for n
    unfolding c by (rule filter_sort_by) (simp add: by_name_def refl)
  with s w show ?thesis by blast
qed

text \<open>
  On four marker files found in the order \<open>zeta\<close>, \<open>beta\<close>, \<open>beta\<close>, \<open>alpha\<close> the catalog
  is \<open>alpha\<close>, \<open>beta\<close>, \<open>beta\<close>, \<open>zeta\<close>, and the two entries \<open>beta\<close> keep the order in
  which they were found: \<open>plugins/beta\<close> before \<open>plugins/beta/beta\<close>.
\<close>

theorem catalog_sorted_witness:
  "consistent (localeCompare demo_env) \<and> findSkills demo_env sort_fs = Inr sort_catalog \<and>
   walkSync sort_fs (plugins_dir demo_env) [] =
     Inr [[js ''plugins'', js ''zeta'', js ''SKILL.md''],
          [js ''plugins'', js ''beta'', js ''SKILL.md''],
          [js ''plugins'', js ''beta'', js ''beta'', js ''SKILL.md''],
          [js ''plugins'', js ''alpha'', js ''SKILL.md'']] \<and>
   map (make_skill demo_env sort_fs)
     (skill_files [[js ''plugins'', js ''zeta'', js ''SKILL.md''],
          [js ''plugins'', js ''beta'', js ''SKILL.md''],
          [js ''plugins'', js ''beta'', js ''beta'', js ''SKILL.md''],
          [js ''plugins'', js ''alpha'', js ''SKILL.md'']]) = sort_found \<and>
   map name sort_found = [js ''zeta'', js ''beta'', js ''beta'', js ''alpha''] \<and>
   map name sort_catalog = [js ''alpha'', js ''beta'', js ''beta'', js ''zeta''] \<and>
   sorted_wrt (\<lambda>a b. localeCompare demo_env (name a) (name b) \<le> 0) sort_catalog \<and>
   filter (\<lambda>e. name e = js ''beta'') sort_catalog = filter (\<lambda>e. name e = js ''beta'') sort_found \<and>
   map path (filter (\<lambda>e. name e = js ''beta'') sort_catalog) =
     [[js ''plugins'', js ''beta''], [js ''plugins'', js ''beta'', js ''beta'']]"
proof -
  have c: "consistent (localeCompare demo_env)"
    by (simp add: demo_env_def consistent_unit_compare)
  from catalog_sorted [OF c sort_catalog_eq]
  have s: "sorted_wrt (\<lambda>a b. localeCompare demo_env (name a) (name b) \<le> 0) sort_catalog"
    and f: "filter (\<lambda>e. name e = js ''beta'') sort_catalog =
            filter (\<lambda>e. name e = js ''beta'') sort_found"
    by (simp_all add: sort_walk sort_found_eq)
  have n1: "map name sort_found = [js ''zeta'', js ''beta'', js ''beta'', js ''alpha'']"
    by (simp add: sort_found_def)
  have n2: "map name sort_catalog = [js ''alpha'', js ''beta'', js ''beta'', js ''zeta'']"
    by (simp add: sort_catalog_def)
  have p: "map path (filter (\<lambda>e. name e = js ''beta'') sort_catalog) =
     [[js ''plugins'', js ''beta''], [js ''plugins'', js ''beta'', js ''beta'']]"
    by (simp add: sort_catalog_def js_def)
  from c sort_catalog_eq sort_walk sort_found_eq n1 n2 s f p show ?thesis by simp
qed


section \<open>The walk\<close>

lemma walkable_stat_entry: "walkable c \<Longrightarrow> can_search m \<Longrightarrow> stat_entry m c = Inr c"
  by (cases c) (simp_all add: stat_entry_def)

lemma stat_entry_Inr: "stat_entry m c = Inr n \<Longrightarrow> n = c \<and> can_search m \<and> (\<forall>e. c \<noteq> Broken e)"
  by (cases c) (auto simp: stat_entry_def split: if_splits)

lemma is_dir_walkable_file: "\<not> is_dir c \<Longrightarrow> (\<forall>e. c \<noteq> Broken e) \<Longrightarrow> walkable c"
  by (cases c) simp_all

lemma walk_files:
  "walkable n \<Longrightarrow> is_dir n \<Longrightarrow> walk_node d n fl = Inr (fl @ files_of d n)"
  "walkable_entries es \<Longrightarrow> es = [] \<or> can_search m \<Longrightarrow>
     walk_entries d m es fl = Inr (fl @ files_of_entries d es)"
proof (induction d n fl and d m es fl rule: walk_node_walk_entries.induct)
  case (1 dir r c filelist)
  then show ?case by simp
next
  case (2 dir e filelist)
  then show ?case by simp
next
  case (3 dir m es filelist)
  then show ?case by simp
next
  case (4 dir m filelist)
  then show ?case by simp
next
  case (5 dir m f c es filelist)
  from "5.prems" have wc: "walkable c" and we: "walkable_entries es" and s: "can_search m"
    by simp_all
  from walkable_stat_entry [OF wc s] have st: "stat_entry m c = Inr c" .
  show ?case
  proof (cases "is_dir c")
    case True
    from "5.IH"(1) [OF st True wc True]
    have w1: "walk_node (dir @ [f]) c filelist = Inr (filelist @ files_of (dir @ [f]) c)" .
    from "5.IH"(2) [OF st True w1 we] s
    have "walk_entries dir m es (filelist @ files_of (dir @ [f]) c) =
            Inr ((filelist @ files_of (dir @ [f]) c) @ files_of_entries dir es)" by simp
    with st True w1 show ?thesis by simp
  next
    case False
    from "5.IH"(3) [OF st False we] s
    have "walk_entries dir m es (filelist @ [dir @ [f]]) =
            Inr ((filelist @ [dir @ [f]]) @ files_of_entries dir es)" by simp
    with st False show ?thesis by simp
  qed
qed

lemma walk_ok:
  "walk_node d n fl = Inr r \<Longrightarrow> walkable n \<and> is_dir n"
  "walk_entries d m es fl = Inr r \<Longrightarrow> walkable_entries es \<and> (es = [] \<or> can_search m)"
proof (induction d n fl and d m es fl arbitrary: r and r rule: walk_node_walk_entries.induct)
  case (1 dir r c filelist)
  then show ?case by simp
next
  case (2 dir e filelist)
  then show ?case by simp
next
  case (3 dir m es filelist)
  then show ?case by (simp split: if_splits)
next
  case (4 dir m filelist)
  then show ?case by simp
next
  case (5 dir m f c es filelist)
  from "5.prems" obtain n where st: "stat_entry m c = Inr n"
    by (cases "stat_entry m c") simp_all
  from stat_entry_Inr [OF st] have n: "n = c" and s: "can_search m" and nb: "\<forall>e. c \<noteq> Broken e"
    by simp_all
  show ?case
  proof (cases "is_dir c")
    case True
    with "5.prems" st n obtain fl1 where w1: "walk_node (dir @ [f]) c filelist = Inr fl1"
      and w2: "walk_entries dir m es fl1 = Inr r" by (auto split: sum.splits)
    from "5.IH"(1) [OF st _ w1] True n have "walkable c" by simp
    moreover from "5.IH"(2) [OF st _ w1 w2] True n have "walkable_entries es" by simp
    ultimately show ?thesis using s by simp
  next
    case False
    with "5.prems" st n have w2: "walk_entries dir m es (filelist @ [dir @ [f]]) = Inr r" by simp
    from "5.IH"(3) [OF st _ w2] False n have "walkable_entries es" by simp
    moreover from False nb have "walkable c" by (rule is_dir_walkable_file)
    ultimately show ?thesis using s by simp
  qed
qed

lemma walk_node_iff:
  "walk_node d n fl = Inr r \<longleftrightarrow> is_dir n \<and> walkable n \<and> r = fl @ files_of d n"
  using walk_files(1) [of n d fl] walk_ok(1) [of d n fl r] by auto

lemma walk_node_fails: "(\<exists>e. walk_node d n fl = Inl e) \<longleftrightarrow> \<not> (is_dir n \<and> walkable n)"
proof (cases "walk_node d n fl")
  case (Inl e)
  then show ?thesis using walk_node_iff [of d n fl] by auto
next
  case (Inr r)
  then show ?thesis using walk_node_iff [of d n fl r] by auto
qed

lemma basename_snoc: "basename (d @ [k]) = k"
  by (simp add: basename_def)

lemma files_prefix:
  "f \<in> set (files_of d n) \<Longrightarrow> \<exists>q. q \<noteq> [] \<and> f = d @ q"
  "f \<in> set (files_of_entries d es) \<Longrightarrow> \<exists>q. q \<noteq> [] \<and> f = d @ q"
proof (induction d n and d es rule: files_of_files_of_entries.induct)
  case (1 dir r c)
  then show ?case by simp
next
  case (2 dir e)
  then show ?case by simp
next
  case (3 dir m es)
  then show ?case by simp
next
  case (4 dir)
  then show ?case by simp
next
  case (5 dir k c es)
  from "5.prems" consider "is_dir c" "f \<in> set (files_of (dir @ [k]) c)"
    | "\<not> is_dir c" "f = dir @ [k]" | "f \<in> set (files_of_entries dir es)"
    by (auto split: if_splits)
  then show ?case
  proof cases
    case 1
    from "5.IH"(1) [OF 1] obtain q where "q \<noteq> []" "f = (dir @ [k]) @ q" by blast
    then have "k # q \<noteq> [] \<and> f = dir @ (k # q)" by simp
    then show ?thesis by blast
  next
    case 2
    then have "[k] \<noteq> [] \<and> f = dir @ [k]" by simp
    then show ?thesis by blast
  next
    case 3
    from "5.IH"(2) [OF 3] show ?thesis .
  qed
qed

lemma marker_files:
  "(\<exists>f\<in>set (files_of d n). basename f = js ''SKILL.md'') \<longleftrightarrow> has_marker n"
  "(\<exists>f\<in>set (files_of_entries d es). basename f = js ''SKILL.md'') \<longleftrightarrow> has_marker_entries es"
proof (induction d n and d es rule: files_of_files_of_entries.induct)
  case (1 dir r c)
  then show ?case by simp
next
  case (2 dir e)
  then show ?case by simp
next
  case (3 dir m es)
  then show ?case by simp
next
  case (4 dir)
  then show ?case by simp
next
  case (5 dir k c es)
  show ?case
  proof (cases "is_dir c")
    case True
    with 5 show ?thesis by (simp add: bex_Un)
  next
    case False
    with 5 show ?thesis by (simp add: bex_Un basename_snoc)
  qed
qed

lemma skill_files_Nil: "skill_files r = [] \<longleftrightarrow> \<not> (\<exists>f\<in>set r. basename f = js ''SKILL.md'')"
  by (auto simp: skill_files_def filter_empty_conv)

lemma sort_by_Nil: "sort_by cmp xs = [] \<longleftrightarrow> xs = []"
  using set_sort_by [of cmp xs] by (metis set_empty)

lemma statSync_exists: "statSync fs p = Inr n \<Longrightarrow> existsSync fs p"
  by (simp add: existsSync_def)

lemma findSkills_stat:
  "statSync fs (plugins_dir ev) = Inr n \<Longrightarrow>
   findSkills ev fs =
     (case walk_node (plugins_dir ev) n [] of
        Inl e \<Rightarrow> Inl e
      | Inr allFiles \<Rightarrow> Inr (sort_by (by_name ev) (map (make_skill ev fs) (skill_files allFiles))))"
  by (simp add: findSkills_def walkSync_def existsSync_def)

text \<open>
  C3, as the code has it: \<open>findSkills\<close> returns the empty catalog when the plugins
  directory does not exist. When it exists, \<open>findSkills\<close> fails exactly when it is not a
  directory the walk gets through (it is a file, or a directory of its tree cannot be
  read or searched, or an entry does not resolve), and returns the empty catalog exactly
  when it is such a directory and holds no marker file.
\<close>

theorem catalog_empty:
  "(\<not> existsSync fs (plugins_dir ev) \<longrightarrow> findSkills ev fs = Inr []) \<and>
   (\<forall>n. statSync fs (plugins_dir ev) = Inr n \<longrightarrow>
      ((\<exists>e. findSkills ev fs = Inl e) \<longleftrightarrow> \<not> (is_dir n \<and> walkable n)) \<and>
      (findSkills ev fs = Inr [] \<longleftrightarrow> is_dir n \<and> walkable n \<and> \<not> has_marker n))"
proof (intro conjI allI impI)
  assume "\<not> existsSync fs (plugins_dir ev)"
  then show "findSkills ev fs = Inr []" by (simp add: findSkills_def)
next
  fix n
  assume s: "statSync fs (plugins_dir ev) = Inr n"
  note f = findSkills_stat [OF s]
  show "(\<exists>e. findSkills ev fs = Inl e) \<longleftrightarrow> \<not> (is_dir n \<and> walkable n)"
    unfolding f walk_node_fails [of "plugins_dir ev" n "[]", symmetric]
    by (cases "walk_node (plugins_dir ev) n []") simp_all
next
  fix n
  assume s: "statSync fs (plugins_dir ev) = Inr n"
  note f = findSkills_stat [OF s]
  show "findSkills ev fs = Inr [] \<longleftrightarrow> is_dir n \<and> walkable n \<and> \<not> has_marker n"
  proof (cases "walk_node (plugins_dir ev) n []")
    case (Inl e)
    with f walk_node_iff [of "plugins_dir ev" n "[]"] show ?thesis by auto
  next
    case (Inr r)
    with walk_node_iff [of "plugins_dir ev" n "[]" r]
    have d: "is_dir n" "walkable n" and r: "r = files_of (plugins_dir ev) n" by simp_all
    from f Inr have "findSkills ev fs = Inr [] \<longleftrightarrow> skill_files r = []"
      by (simp add: sort_by_Nil)
    also have "\<dots> \<longleftrightarrow> \<not> has_marker n"
      unfolding skill_files_Nil r marker_files(1) ..
    finally show ?thesis using d by simp
  qed
qed

theorem catalog_empty_witness:
  "\<not> existsSync (Dir rwx []) (plugins_dir demo_env) \<and> findSkills demo_env (Dir rwx []) = Inr [] \<and>
   statSync no_marker_fs (plugins_dir demo_env) = Inr (Dir rwx [(js ''README.md'', File True (js ''x''))]) \<and>
   walkable (Dir rwx [(js ''README.md'', File True (js ''x''))]) \<and>
   \<not> has_marker (Dir rwx [(js ''README.md'', File True (js ''x''))]) \<and>
   findSkills demo_env no_marker_fs = Inr [] \<and>
   statSync locked_below_fs (plugins_dir demo_env) =
     Inr (Dir rwx [(js ''README.md'', File True (js ''x'')),
                   (js ''private'', Dir (rwx\<lparr>can_read := False\<rparr>) [])]) \<and>
   \<not> walkable (Dir rwx [(js ''README.md'', File True (js ''x'')),
                   (js ''private'', Dir (rwx\<lparr>can_read := False\<rparr>) [])]) \<and>
   (\<exists>e. findSkills demo_env locked_below_fs = Inl e) \<and>
   findSkills demo_env locked_below_fs = Inl EACCES \<and>
   statSync file_fs (plugins_dir demo_env) = Inr (File True (js ''x'')) \<and>
   \<not> is_dir (File True (js ''x'')) \<and>
   (\<exists>e. findSkills demo_env file_fs = Inl e) \<and>
   findSkills demo_env file_fs = Inl ENOTDIR \<and>
   statSync dangling_fs (plugins_dir demo_env) =
     Inr (Dir rwx [(js ''README.md'', File True (js ''x'')), (js ''gone'', Broken ENOENT)]) \<and>
   \<not> walkable (Dir rwx [(js ''README.md'', File True (js ''x'')), (js ''gone'', Broken ENOENT)]) \<and>
   (\<exists>e. findSkills demo_env dangling_fs = Inl e) \<and>
   findSkills demo_env dangling_fs = Inl ENOENT \<and>
   statSync demo_fs (plugins_dir demo_env) = Inr demo_plugins \<and>
   walkable demo_plugins \<and> has_marker demo_plugins \<and>
   findSkills demo_env demo_fs \<noteq> Inr []"
proof -
  let ?p = "plugins_dir demo_env"
  let ?A = "Dir rwx [(js ''README.md'', File True (js ''x''))]"
  let ?B = "Dir rwx [(js ''README.md'', File True (js ''x'')),
                   (js ''private'', Dir (rwx\<lparr>can_read := False\<rparr>) [])]"
  note t = catalog_empty
  have a0: "\<not> existsSync (Dir rwx []) ?p" by (simp add: fs_eval demo_env_def)
  from t [of "Dir rwx []" demo_env] a0 have a1: "findSkills demo_env (Dir rwx []) = Inr []" by blast
  have b0: "statSync no_marker_fs ?p = Inr ?A" by (simp add: fs_eval no_marker_fs_def demo_env_def)
  have b1: "walkable ?A" by (simp add: rwx_def)
  have b2: "\<not> has_marker ?A" by (simp add: js_def)
  from t [of no_marker_fs demo_env] b0 b1 b2 have b3: "findSkills demo_env no_marker_fs = Inr []"
    by simp
  have c0: "statSync locked_below_fs ?p = Inr ?B"
    by (simp add: fs_eval locked_below_fs_def demo_env_def)
  have c1: "\<not> walkable ?B" by (simp add: rwx_def)
  from t [of locked_below_fs demo_env] c0 c1 have c2: "\<exists>e. findSkills demo_env locked_below_fs = Inl e"
    by simp
  have c3: "findSkills demo_env locked_below_fs = Inl EACCES"
    by (simp add: locked_below_fs_def demo_env_def js_def catalog_eval)
  have d0: "statSync file_fs ?p = Inr (File True (js ''x''))"
    by (simp add: fs_eval file_fs_def demo_env_def)
  from t [of file_fs demo_env] d0 have d2: "\<exists>e. findSkills demo_env file_fs = Inl e" by simp
  have d3: "findSkills demo_env file_fs = Inl ENOTDIR"
    by (simp add: file_fs_def demo_env_def js_def catalog_eval)
  let ?C = "Dir rwx [(js ''README.md'', File True (js ''x'')), (js ''gone'', Broken ENOENT)]"
  have g0: "statSync dangling_fs ?p = Inr ?C"
    by (simp add: fs_eval dangling_fs_def demo_env_def)
  have g1: "\<not> walkable ?C" by (simp add: rwx_def)
  from t [of dangling_fs demo_env] g0 g1 have g2: "\<exists>e. findSkills demo_env dangling_fs = Inl e"
    by simp
  have g3: "findSkills demo_env dangling_fs = Inl ENOENT"
    by (simp add: dangling_fs_def demo_env_def js_def catalog_eval)
  have e0: "statSync demo_fs ?p = Inr demo_plugins"
    by (simp add: fs_eval demo_fs_def demo_env_def demo_plugins_def)
  have e1: "walkable demo_plugins" by (simp add: demo_plugins_def demo_skill_dir_def rwx_def)
  have e2: "has_marker demo_plugins" by (simp add: demo_plugins_def demo_skill_dir_def js_def)
  from t [of demo_fs demo_env] e0 e2 have e3: "findSkills demo_env demo_fs \<noteq> Inr []" by simp
  from a0 a1 b0 b1 b2 b3 c0 c1 c2 c3 d0 d2 d3 g0 g1 g2 g3 e0 e1 e2 e3 show ?thesis by simp
qed

text \<open>
  C3 as stated fails: on a plugins directory that cannot be read the error of
  \<open>readdirSync\<close> leaves \<open>findSkills\<close>, and so does the error of \<open>statSync\<close> on a plugins
  directory without marker file in which a link does not resolve.
\<close>

theorem unreadable_root_counterexample:
  "existsSync locked_fs (plugins_dir demo_env) \<and> findSkills demo_env locked_fs = Inl EACCES \<and>
   \<not> has_marker (Dir rwx [(js ''README.md'', File True (js ''x'')), (js ''gone'', Broken ENOENT)]) \<and>
   statSync dangling_fs (plugins_dir demo_env) =
     Inr (Dir rwx [(js ''README.md'', File True (js ''x'')), (js ''gone'', Broken ENOENT)]) \<and>
   findSkills demo_env dangling_fs = Inl ENOENT"
  by (simp add: locked_fs_def dangling_fs_def demo_env_def js_def catalog_eval)


section \<open>Installing\<close>

text \<open>
  C6: when no entry of the freshly built catalog has the requested name, the outcome is
  \<open>NotFound\<close> and the file system is the one before the call.
\<close>

theorem install_not_found:
  assumes "findSkills ev fs = Inr catalog" and "\<forall>e\<in>set catalog. JStr (name e) \<noteq> v"
  shows "handleInstallSkill ev fs v = Inr (NotFound, fs)"
proof -
  from assms(2) have "find (\<lambda>s. JStr (name s) = v) catalog = None"
    by (simp add: find_None_iff)
  with assms(1) show ?thesis by (simp add: handleInstallSkill_def)
qed

theorem install_not_found_witness:
  "findSkills demo_env demo_fs = Inr [demo_skill] \<and> JStr (name demo_skill) \<noteq> JStr (js ''nope'') \<and>
   handleInstallSkill demo_env demo_fs (JStr (js ''nope'')) = Inr (NotFound, demo_fs)"
proof -
  have n: "JStr (name demo_skill) \<noteq> JStr (js ''nope'')" by (simp add: demo_skill_def js_def)
  then have "\<forall>e\<in>set [demo_skill]. JStr (name e) \<noteq> JStr (js ''nope'')" by simp
  from install_not_found [OF demo_catalog this] demo_catalog n show ?thesis by simp
qed

section \<open>The request handler\<close>

lemma install_tool_not_list: "install_tool \<noteq> js ''list_marketplace_skills''"
  by (simp add: install_tool_def js_def)

text \<open>
  C9: the install tool answers an empty \<open>skill_name\<close> as it answers a missing one, with
  the missing-argument fault; whenever it does reach \<open>handleInstallSkill\<close>, the argument
  passed is not the empty string.
\<close>

theorem empty_name_rejected:
  "(a (js ''skill_name'') = Some (JStr []) \<longrightarrow>
      call_tool ev fs install_tool (Some a) = Inl MissingArgument) \<and>
   (a (js ''skill_name'') = None \<longrightarrow>
      call_tool ev fs install_tool (Some a) = Inl MissingArgument) \<and>
   (\<forall>r. call_tool ev fs install_tool args = Inr r \<longrightarrow>
      (\<exists>b v msg. args = Some b \<and> b (js ''skill_name'') = Some v \<and> v \<noteq> JStr [] \<and> truthy v \<and>
         handleInstallSkill ev fs v = Inr (msg, snd r) \<and> fst r = InstallMessage msg))"
proof (intro conjI allI impI)
  assume "a (js ''skill_name'') = Some (JStr [])"
  then show "call_tool ev fs install_tool (Some a) = Inl MissingArgument"
    using install_tool_not_list by (simp add: call_tool_def install_tool_def [symmetric])
next
  assume "a (js ''skill_name'') = None"
  then show "call_tool ev fs install_tool (Some a) = Inl MissingArgument"
    using install_tool_not_list by (simp add: call_tool_def install_tool_def [symmetric])
next
  fix r
  assume c: "call_tool ev fs install_tool args = Inr r"
  then obtain b where b: "args = Some b"
    using install_tool_not_list
    by (cases args) (simp_all add: call_tool_def install_tool_def [symmetric])
  show "\<exists>b v msg. args = Some b \<and> b (js ''skill_name'') = Some v \<and> v \<noteq> JStr [] \<and> truthy v \<and>
         handleInstallSkill ev fs v = Inr (msg, snd r) \<and> fst r = InstallMessage msg"
  proof (cases "b (js ''skill_name'')")
    case None
    with c b show ?thesis
      using install_tool_not_list by (simp add: call_tool_def install_tool_def [symmetric])
  next
    case (Some v)
    with c b have t: "truthy v"
      using install_tool_not_list
      by (simp add: call_tool_def install_tool_def [symmetric] split: if_splits)
    then have ne: "v \<noteq> JStr []" by auto
    from c b Some t obtain msg fs' where
      "handleInstallSkill ev fs v = Inr (msg, fs')" and "r = (InstallMessage msg, fs')"
      using install_tool_not_list
      by (auto simp: call_tool_def install_tool_def [symmetric] split: sum.splits prod.splits)
    with b Some t ne show ?thesis by auto
  qed
qed

theorem empty_name_rejected_witness:
  "[js ''skill_name'' \<mapsto> JStr []] (js ''skill_name'') = Some (JStr []) \<and>
   call_tool demo_env demo_fs install_tool (Some [js ''skill_name'' \<mapsto> JStr []]) = Inl MissingArgument \<and>
   Map.empty (js ''skill_name'') = (None :: jsval option) \<and>
   call_tool demo_env demo_fs install_tool (Some Map.empty) = Inl MissingArgument"
  using empty_name_rejected [of "[js ''skill_name'' \<mapsto> JStr []]" demo_env demo_fs]
    empty_name_rejected [of Map.empty demo_env demo_fs]
  by simp


section \<open>The matcher\<close>

lemma parse_description_header:
  "parse_description content =
     (case header_text content of None \<Rightarrow> placeholder | Some y \<Rightarrow> describe_header y)"
  by (simp add: parse_description_def header_text_def describe_header_def split: option.splits)


lemma runs_nonempty: "runs C p s \<noteq> []"
  by (cases s) simp_all

lemma in_runs:
  "(q, t) \<in> set (runs C p s) \<longleftrightarrow>
     (\<exists>u. s = u @ t \<and> (\<forall>c\<in>set u. C c) \<and> q = (if u = [] then p else Some (last u)))"
proof (induction s arbitrary: p)
  case Nil
  then show ?case by auto
next
  case (Cons c cs)
  show ?case
  proof
    assume "(q, t) \<in> set (runs C p (c # cs))"
    then consider "q = p" "t = c # cs" | "C c" "(q, t) \<in> set (runs C (Some c) cs)"
      by (auto split: if_splits)
    then show "\<exists>u. c # cs = u @ t \<and> (\<forall>c\<in>set u. C c) \<and> q = (if u = [] then p else Some (last u))"
    proof cases
      case 1
      then have "c # cs = [] @ t \<and> (\<forall>c\<in>set []. C c) \<and> q = (if [] = ([]::nat list) then p else Some (last []))"
        by simp
      then show ?thesis by blast
    next
      case 2
      with Cons.IH [of "Some c"] obtain u where
        u: "cs = u @ t" "\<forall>c\<in>set u. C c" "q = (if u = [] then Some c else Some (last u))"
        by blast
      with 2 have "c # cs = (c # u) @ t \<and> (\<forall>x\<in>set (c # u). C x) \<and>
          q = (if c # u = [] then p else Some (last (c # u)))" by simp
      then show ?thesis by blast
    qed
  next
    assume "\<exists>u. c # cs = u @ t \<and> (\<forall>c\<in>set u. C c) \<and> q = (if u = [] then p else Some (last u))"
    then obtain u where u: "c # cs = u @ t" "\<forall>c\<in>set u. C c"
      "q = (if u = [] then p else Some (last u))" by blast
    show "(q, t) \<in> set (runs C p (c # cs))"
    proof (cases u)
      case Nil
      with u have "t = c # cs" "q = p" by simp_all
      then show ?thesis by simp
    next
      case (Cons a u')
      with u have "cs = u' @ t \<and> (\<forall>c\<in>set u'. C c) \<and> q = (if u' = [] then Some c else Some (last u'))"
        and "C c" by auto
      with Cons.IH [of "Some c"] show ?thesis by auto
    qed
  qed
qed

text \<open>What a match leaves is a suffix of what it started from.\<close>

lemma matches_suffix:
  "st' \<in> set (matches r st) \<Longrightarrow> \<exists>u. rest st = u @ rest st'"
proof (induction r arbitrary: st st')
  case (Bol ml)
  then show ?case by (auto split: option.splits if_splits)
next
  case (Eol ml)
  then show ?case by (auto split: list.splits if_splits)
next
  case (Lit l)
  then show ?case by (auto simp: prefix_def split: if_splits)
next
  case (StarG C)
  then obtain q t where "(q, t) \<in> set (runs C (prev st) (rest st))" "st' = move st (q, t)"
    by auto
  then show ?case by (auto simp: in_runs move_def)
next
  case (StarL C)
  then obtain q t where "(q, t) \<in> set (runs C (prev st) (rest st))" "st' = move st (q, t)"
    by auto
  then show ?case by (auto simp: in_runs move_def)
next
  case (PlusG C)
  then obtain q t where "(q, t) \<in> set (tl (runs C (prev st) (rest st)))" "st' = move st (q, t)"
    by auto
  then have "(q, t) \<in> set (runs C (prev st) (rest st))" by (meson list.set_sel(2) runs_nonempty)
  with \<open>st' = move st (q, t)\<close> show ?case by (auto simp: in_runs move_def)
next
  case (Opt r)
  then show ?case by auto
next
  case (Grp n r)
  then obtain s1 where "s1 \<in> set (matches r st)" "rest st' = rest s1" by auto
  with Grp.IH show ?case by fastforce
next
  case (Seq a b)
  then obtain s1 where s1: "s1 \<in> set (matches a st)" "st' \<in> set (matches b s1)" by auto
  from Seq.IH(1) [OF s1(1)] obtain u where "rest st = u @ rest s1" by blast
  moreover from Seq.IH(2) [OF s1(2)] obtain v where "rest s1 = v @ rest st'" by blast
  ultimately have "rest st = (u @ v) @ rest st'" by simp
  then show ?case by blast
qed

text \<open>A pattern anchored with \<open>^\<close> (no m flag) matches at the start of the input only.\<close>

lemma exec_from_anchored:
  "exec_from (Seq (Bol False) r) (Some c) s = None"
  by (induction s arbitrary: c) simp_all

lemma str_match_anchored:
  "str_match (Seq (Bol False) r) s =
     (case matches r \<lparr>prev = None, rest = s, caps = (\<lambda>n. None)\<rparr> of [] \<Rightarrow> None | m # ms \<Rightarrow> Some m)"
  by (cases s) (simp_all add: str_match_def exec_from_anchored split: list.splits option.splits)

lemma in_Lit:
  "s' \<in> set (matches (Lit l) s) \<Longrightarrow> rest s = l @ rest s' \<and> caps s' = caps s"
  by (auto simp: prefix_def split: if_splits)

lemma in_StarG:
  "s' \<in> set (matches (StarG C) s) \<Longrightarrow> \<exists>u. rest s = u @ rest s' \<and> (\<forall>c\<in>set u. C c) \<and> caps s' = caps s"
proof -
  assume "s' \<in> set (matches (StarG C) s)"
  then obtain q t where "(q, t) \<in> set (runs C (prev s) (rest s))" "s' = move s (q, t)" by auto
  then show ?thesis by (auto simp: in_runs move_def)
qed

lemma in_StarL:
  "s' \<in> set (matches (StarL C) s) \<Longrightarrow> \<exists>u. rest s = u @ rest s' \<and> (\<forall>c\<in>set u. C c) \<and> caps s' = caps s"
proof -
  assume "s' \<in> set (matches (StarL C) s)"
  then obtain q t where "(q, t) \<in> set (runs C (prev s) (rest s))" "s' = move s (q, t)" by auto
  then show ?thesis by (auto simp: in_runs move_def)
qed

lemma in_Seq:
  "s'' \<in> set (matches (Seq a b) s) \<Longrightarrow> \<exists>s'\<in>set (matches a s). s'' \<in> set (matches b s')"
  by auto

lemma in_Grp_StarL:
  assumes "s' \<in> set (matches (Grp n (StarL C)) s)"
  shows "\<exists>u. rest s = u @ rest s' \<and> caps s' = (caps s)(n \<mapsto> u)"
proof -
  from assms obtain s1 where s1: "s1 \<in> set (matches (StarL C) s)"
    and s': "s' = s1\<lparr>caps := (caps s1)(n \<mapsto> take (length (rest s) - length (rest s1)) (rest s))\<rparr>"
    by auto
  from in_StarL [OF s1] obtain u where u: "rest s = u @ rest s1" "caps s1 = caps s" by blast
  then have "take (length (rest s) - length (rest s1)) (rest s) = u" by simp
  with s' u show ?thesis by simp
qed

lemma first_in_set: "(case xs of [] \<Rightarrow> None | m # ms \<Rightarrow> Some m) = Some x \<Longrightarrow> x \<in> set xs"
  by (cases xs) auto

lemma frontmatter_shape:
  assumes "header_text content = Some y"
  shows "\<exists>ws1 ws2 t. content = js ''---'' @ ws1 @ [10] @ y @ (10 # js ''---'') @ ws2 @ [10] @ t \<and>
           (\<forall>c\<in>set ws1. is_space c) \<and> (\<forall>c\<in>set ws2. is_space c)"
proof -
  let ?s0 = "\<lparr>prev = None, rest = content, caps = (\<lambda>n. None)\<rparr>"
  let ?r7 = "Lit [10]"
  let ?r6 = "Seq (StarG is_space) ?r7"
  let ?r5 = "Seq (Lit (10 # js ''---'')) ?r6"
  let ?r4 = "Seq (Grp 1 (StarL any_unit)) ?r5"
  let ?r3 = "Seq (Lit [10]) ?r4"
  let ?r2 = "Seq (StarG is_space) ?r3"
  let ?r1 = "Seq (Lit (js ''---'')) ?r2"
  from assms obtain m where m: "str_match frontmatter_re content = Some m" "caps m 1 = Some y"
    by (auto simp: header_text_def split: option.splits)
  have "frontmatter_re = Seq (Bol False) ?r1" by (simp add: frontmatter_re_def)
  with m(1) have "str_match (Seq (Bol False) ?r1) content = Some m" by simp
  then have "m \<in> set (matches ?r1 ?s0)"
    unfolding str_match_anchored by (rule first_in_set)
  from in_Seq [OF this] obtain s1 where s1: "s1 \<in> set (matches (Lit (js ''---'')) ?s0)"
    and m1: "m \<in> set (matches ?r2 s1)" by blast
  from in_Seq [OF m1] obtain s2 where s2: "s2 \<in> set (matches (StarG is_space) s1)"
    and m2: "m \<in> set (matches ?r3 s2)" by blast
  from in_Seq [OF m2] obtain s3 where s3: "s3 \<in> set (matches (Lit [10]) s2)"
    and m3: "m \<in> set (matches ?r4 s3)" by blast
  from in_Seq [OF m3] obtain s4 where s4: "s4 \<in> set (matches (Grp 1 (StarL any_unit)) s3)"
    and m4: "m \<in> set (matches ?r5 s4)" by blast
  from in_Seq [OF m4] obtain s5 where s5: "s5 \<in> set (matches (Lit (10 # js ''---'')) s4)"
    and m5: "m \<in> set (matches ?r6 s5)" by blast
  from in_Seq [OF m5] obtain s6 where s6: "s6 \<in> set (matches (StarG is_space) s5)"
    and m6: "m \<in> set (matches ?r7 s6)" by blast
  from in_Lit [OF s1] have e1: "content = js ''---'' @ rest s1" by simp
  from in_StarG [OF s2] obtain ws1 where e2: "rest s1 = ws1 @ rest s2" "\<forall>c\<in>set ws1. is_space c"
    by blast
  from in_Lit [OF s3] have e3: "rest s2 = [10] @ rest s3" by simp
  from in_Grp_StarL [OF s4] obtain u where e4: "rest s3 = u @ rest s4" "caps s4 = (caps s3)(1 \<mapsto> u)"
    by blast
  from in_Lit [OF s5] have e5: "rest s4 = (10 # js ''---'') @ rest s5" "caps s5 = caps s4" by simp_all
  from in_StarG [OF s6] obtain ws2 where e6: "rest s5 = ws2 @ rest s6" "\<forall>c\<in>set ws2. is_space c"
    "caps s6 = caps s5" by blast
  from in_Lit [OF m6] have e7: "rest s6 = [10] @ rest m" "caps m = caps s6" by simp_all
  from e4(2) e5(2) e6(3) e7(2) m(2) have "u = y" by simp
  with e1 e2 e3 e4 e5 e6 e7
  have "content = js ''---'' @ ws1 @ [10] @ y @ (10 # js ''---'') @ ws2 @ [10] @ rest m" by simp
  with e2(2) e6(2) show ?thesis by blast
qed

lemma header_needs_dashes: "\<not> prefix (js ''---'') content \<Longrightarrow> header_text content = None"
proof (rule ccontr)
  assume a: "\<not> prefix (js ''---'') content" and "header_text content \<noteq> None"
  then obtain y where "header_text content = Some y" by auto
  from frontmatter_shape [OF this] a show False by (auto simp: prefix_def)
qed


lemma unterminated_append:
  "unterminated (u @ (10 # js ''---'') @ v) \<Longrightarrow> 10 \<notin> set v"
proof (induction u)
  case Nil
  then show ?case by (simp add: js_def)
next
  case (Cons a u)
  then show ?case by simp
qed

lemma header_needs_newline: "unterminated content \<Longrightarrow> header_text content = None"
proof (rule ccontr)
  assume a: "unterminated content" and "header_text content \<noteq> None"
  then obtain y where "header_text content = Some y" by auto
  from frontmatter_shape [OF this] obtain ws1 ws2 t where
    "content = (js ''---'' @ ws1 @ [10] @ y) @ (10 # js ''---'') @ (ws2 @ [10] @ t)" by auto
  with a have "10 \<notin> set (ws2 @ [10] @ t)" using unterminated_append by metis
  then show False by simp
qed

lemma matches_line_literal:
  "\<not> (line_start (prev st) \<and> prefix l (rest st)) \<Longrightarrow> matches (Seq (Bol True) (Seq (Lit l) r)) st = []"
  by (auto simp: line_start_def split: option.splits)

lemma description_re_no_key:
  "\<not> (line_start p \<and> prefix (js ''description:'') s) \<Longrightarrow>
   matches description_re \<lparr>prev = p, rest = s, caps = (\<lambda>n. None)\<rparr> = []"
  unfolding description_re_def by (rule matches_line_literal) simp




section \<open>The description\<close>

lemmas header_eval = header_text_def has_description_key_def line_start_def



text \<open>
  C10: a header is recognised only in a text of the form \<open>---\<close>, white space, newline,
  header, newline, \<open>---\<close>, white space, newline: it starts at the first character and the
  closing \<open>---\<close> is followed by a newline. A text with anything before the opening \<open>---\<close>,
  or whose closing \<open>---\<close> line is the last line without newline, gets the placeholder.
\<close>

theorem header_recognition:
  "(\<not> prefix (js ''---'') content \<longrightarrow> parse_description content = placeholder) \<and>
   (unterminated content \<longrightarrow> parse_description content = placeholder) \<and>
   (\<forall>y. header_text content = Some y \<longrightarrow>
      (\<exists>ws1 ws2 t. content = js ''---'' @ ws1 @ [10] @ y @ (10 # js ''---'') @ ws2 @ [10] @ t \<and>
         (\<forall>c\<in>set ws1. is_space c) \<and> (\<forall>c\<in>set ws2. is_space c)))"
  using frontmatter_shape
  by (simp add: parse_description_header header_needs_dashes header_needs_newline)

theorem header_recognition_witness:
  "\<not> prefix (js ''---'') (js ''\<newline>---\<newline>description: x\<newline>---\<newline>'') \<and>
   parse_description (js ''\<newline>---\<newline>description: x\<newline>---\<newline>'') = placeholder \<and>
   unterminated (js ''---\<newline>description: x\<newline>---'') \<and>
   parse_description (js ''---\<newline>description: x\<newline>---'') = placeholder \<and>
   header_text (js ''---\<newline>description: x\<newline>---\<newline>'') = Some (js ''description: x'') \<and>
   parse_description (js ''---\<newline>description: x\<newline>---\<newline>'') = js ''x'' \<and>
   (\<exists>ws1 ws2 t. js ''---\<newline>description: x\<newline>---\<newline>'' =
       js ''---'' @ ws1 @ [10] @ js ''description: x'' @ (10 # js ''---'') @ ws2 @ [10] @ t \<and>
       (\<forall>c\<in>set ws1. is_space c) \<and> (\<forall>c\<in>set ws2. is_space c))"
proof -
  have a1: "\<not> prefix (js ''---'') (js ''\<newline>---\<newline>description: x\<newline>---\<newline>'')"
    by (simp add: js_def)
  have b1: "unterminated (js ''---\<newline>description: x\<newline>---'')" by (simp add: js_def)
  have c1: "header_text (js ''---\<newline>description: x\<newline>---\<newline>'') = Some (js ''description: x'')"
    by (simp add: header_eval regex_eval js_def)
  have c2: "parse_description (js ''---\<newline>description: x\<newline>---\<newline>'') = js ''x''"
    by (simp add: parse_description_def str_trim_def regex_eval js_def)
  note t = header_recognition
  from t [of "js ''\<newline>---\<newline>description: x\<newline>---\<newline>''"] a1
  have a: "parse_description (js ''\<newline>---\<newline>description: x\<newline>---\<newline>'') = placeholder" by blast
  from t [of "js ''---\<newline>description: x\<newline>---''"] b1
  have b: "parse_description (js ''---\<newline>description: x\<newline>---'') = placeholder" by blast
  from t [of "js ''---\<newline>description: x\<newline>---\<newline>''"] c1
  have c: "\<exists>ws1 ws2 t. js ''---\<newline>description: x\<newline>---\<newline>'' =
       js ''---'' @ ws1 @ [10] @ js ''description: x'' @ (10 # js ''---'') @ ws2 @ [10] @ t \<and>
       (\<forall>c\<in>set ws1. is_space c) \<and> (\<forall>c\<in>set ws2. is_space c)" by blast
  from a1 a b1 b c1 c2 c show ?thesis by blast
qed


section \<open>File system operations\<close>

lemma lookup_append:
  "lookup t (p @ q) = (case lookup t p of None \<Rightarrow> None | Some n \<Rightarrow> lookup n q)"
  "lookup_entries es s (p @ q) = (case lookup_entries es s p of None \<Rightarrow> None | Some n \<Rightarrow> lookup n q)"
  by (induction t p and es s p rule: lookup_lookup_entries.induct) simp_all

lemma lstat_append:
  "lstat t (p @ q) = (case lstat t p of Inl e \<Rightarrow> Inl e | Inr n \<Rightarrow> lstat n q)"
  "lstat_entries es s (p @ q) = (case lstat_entries es s p of Inl e \<Rightarrow> Inl e | Inr n \<Rightarrow> lstat n q)"
  by (induction t p and es s p rule: lstat_lstat_entries.induct) simp_all

lemma lstat_lookup:
  "lstat t p = Inr n \<Longrightarrow> lookup t p = Some n"
  "lstat_entries es s p = Inr n \<Longrightarrow> lookup_entries es s p = Some n"
  by (induction t p and es s p rule: lstat_lstat_entries.induct) (auto split: if_splits)

lemma lstat_absent:
  "lstat t p = Inl ENOENT \<Longrightarrow> lookup t p = None"
  "lstat_entries es s p = Inl ENOENT \<Longrightarrow> lookup_entries es s p = None"
  by (induction t p and es s p rule: lstat_lstat_entries.induct) (auto split: if_splits)

lemma statSync_lstat: "statSync fs p = Inr n \<Longrightarrow> lstat fs p = Inr n \<and> (\<forall>e. n \<noteq> Broken e)"
  by (auto simp: statSync_def split: sum.splits node.splits)

lemma lstat_statSync: "lstat fs p = Inr n \<Longrightarrow> \<forall>e. n \<noteq> Broken e \<Longrightarrow> statSync fs p = Inr n"
  by (cases n) (simp_all add: statSync_def)

lemma lstat_put:
  "put t p x = Inr t' \<Longrightarrow> lstat t' p = Inr x"
  "put_entries m es s p x = Inr es' \<Longrightarrow> lstat_entries es' s p = Inr x"
  by (induction t p x and m es s p x arbitrary: t' and es' rule: put_put_entries.induct)
     (auto split: if_splits sum.splits)

lemma lookup_put: "put t p x = Inr t' \<Longrightarrow> lookup t' p = Some x"
  using lstat_put(1) lstat_lookup(1) by blast

lemma walkable_lstat:
  "walkable t \<Longrightarrow> lstat t p = Inr n \<Longrightarrow> walkable n"
  "walkable_entries es \<Longrightarrow> lstat_entries es s p = Inr n \<Longrightarrow> walkable n"
  by (induction t p and es s p rule: lstat_lstat_entries.induct) (auto split: if_splits)

lemma grows_refl: "grows n n" "grows_entries es es"
  by (induction n and es rule: walkable_walkable_entries.induct) simp_all

lemma grows_walkable:
  "grows n n' \<Longrightarrow> walkable n \<Longrightarrow> walkable n'"
  "grows_entries es es' \<Longrightarrow> walkable_entries es \<Longrightarrow> walkable_entries es'"
proof (induction n n' and es es' rule: grows_grows_entries.induct)
  case (2 m es m' es')
  then show ?case by (cases es; cases es') auto
qed simp_all

lemma grows_kind: "grows n n' \<Longrightarrow> \<forall>e. n \<noteq> Broken e \<Longrightarrow> is_dir n' = is_dir n \<and> (\<forall>e. n' \<noteq> Broken e)"
  by (cases n; cases n') simp_all

lemma grows_entries_Nil: "grows_entries es [] \<Longrightarrow> es = []"
  by (cases es) auto

lemma grows_trans:
  "grows a b \<Longrightarrow> grows b c \<Longrightarrow> grows a c"
  "grows_entries as bs \<Longrightarrow> grows_entries bs cs \<Longrightarrow> grows_entries as cs"
proof (induction a b and as bs arbitrary: c and cs rule: grows_grows_entries.induct)
  case (1 r c r' c')
  then show ?case by (cases c) simp_all
next
  case (2 m es m' es')
  from "2.prems"(2) obtain m'' es'' where c: "c = Dir m'' es''" by (cases c) simp_all
  from "2.prems"(1) have a: "m = m'" "grows_entries es es'" "es = [] \<longrightarrow> es' = [] \<or> can_search m"
    by auto
  from "2.prems"(2) c have b: "m' = m''" "grows_entries es' es''"
    "es' = [] \<longrightarrow> es'' = [] \<or> can_search m'" by auto
  from "2.IH" [OF a(2) b(2)] have g: "grows_entries es es''" .
  from a b have "es = [] \<longrightarrow> es'' = [] \<or> can_search m" by (cases "es' = []") auto
  with a b c g show ?case by auto
next
  case (8 es')
  then show ?case using grows_walkable(2) by simp
next
  case (10 k c es k' c' es')
  then show ?case by (cases cs) auto
qed simp_all

lemma files_grows:
  "grows n n' \<Longrightarrow> walkable n \<Longrightarrow> set (files_of d n) \<subseteq> set (files_of d n')"
  "grows_entries es es' \<Longrightarrow> walkable_entries es \<Longrightarrow>
     set (files_of_entries d es) \<subseteq> set (files_of_entries d es')"
proof (induction n n' and es es' arbitrary: d and d rule: grows_grows_entries.induct)
  case (10 k c es k' c' es')
  from "10.prems" have kk: "k' = k" and gc: "grows c c'" and ge: "grows_entries es es'"
    and wc: "walkable c" and we: "walkable_entries es" by simp_all
  from wc have nb: "\<forall>e. c \<noteq> Broken e" by auto
  from grows_kind [OF gc nb] have d: "is_dir c' = is_dir c" by simp
  from "10.IH"(1) [OF gc wc] have 1: "set (files_of (d @ [k]) c) \<subseteq> set (files_of (d @ [k]) c')" .
  from "10.IH"(2) [OF ge we] have 2: "set (files_of_entries d es) \<subseteq> set (files_of_entries d es')" .
  from 1 2 d kk show ?case by auto
qed simp_all

lemma lstat_grows:
  "grows t t' \<Longrightarrow> lstat t p = Inr n \<Longrightarrow> \<exists>n'. lstat t' p = Inr n' \<and> grows n n'"
  "grows_entries es es' \<Longrightarrow> lstat_entries es s p = Inr n \<Longrightarrow>
     \<exists>n'. lstat_entries es' s p = Inr n' \<and> grows n n'"
proof (induction t p and es s p arbitrary: t' n and es' n rule: lstat_lstat_entries.induct)
  case (1 n)
  then show ?case by simp
next
  case (2 r c s p)
  then show ?case by simp
next
  case (3 e s p)
  then show ?case by simp
next
  case (4 m es s p)
  then show ?case by (cases t') (auto split: if_splits)
next
  case (5 s p)
  then show ?case by simp
next
  case (6 k c es s p)
  from "6.prems"(1) obtain c' es'' where e: "es' = (k, c') # es''" and gc: "grows c c'"
    and ge: "grows_entries es es''" by (cases es') auto
  show ?case
  proof (cases "k = s")
    case True
    with 6 e gc show ?thesis by simp
  next
    case False
    with 6 e ge show ?thesis by simp
  qed
qed

lemma statSync_grows:
  assumes "grows t t'" and "statSync t p = Inr n"
  shows "\<exists>n'. statSync t' p = Inr n' \<and> grows n n' \<and> is_dir n' = is_dir n"
proof -
  from statSync_lstat [OF assms(2)] have l: "lstat t p = Inr n" and nb: "\<forall>e. n \<noteq> Broken e"
    by simp_all
  from lstat_grows(1) [OF assms(1) l] obtain n' where l': "lstat t' p = Inr n'" and g: "grows n n'"
    by blast
  from grows_kind [OF g nb] have k: "is_dir n' = is_dir n" "\<forall>e. n' \<noteq> Broken e" by simp_all
  from lstat_statSync [OF l' k(2)] g k(1) show ?thesis by blast
qed

lemma walkable_fresh_dirs: "walkable (fresh_dirs p)"
  by (induction p) (simp_all add: rwx_def)

lemma distinct_fresh_dirs: "distinct_names (fresh_dirs p)"
  by (induction p) simp_all

lemma lookup_set_entry_same: "lookup_entries (set_entry k c des) k q = lookup c q"
  by (induction des) auto

lemma lookup_set_entry_other:
  "k' \<noteq> k \<Longrightarrow> lookup_entries (set_entry k c des) k' q = lookup_entries des k' q"
  by (induction des) auto

lemma keys_set_entry: "fst ` set (set_entry k c des) = insert k (fst ` set des)"
proof (induction des)
  case Nil
  then show ?case by simp
next
  case (Cons e des)
  obtain k0 c0 where e: "e = (k0, c0)" by (cases e)
  with Cons show ?case by (cases "k0 = k") auto
qed

lemma set_entry_nonempty: "set_entry k c des \<noteq> []"
  by (cases des) (auto split: if_splits)

lemma set_entry_grows:
  "(case lookup_entries des k [] of None \<Rightarrow> walkable c' | Some d \<Rightarrow> grows d c') \<Longrightarrow>
   grows_entries des (set_entry k c' des)"
proof (induction des)
  case Nil
  then show ?case by simp
next
  case (Cons e des)
  obtain k0 c0 where e: "e = (k0, c0)" by (cases e)
  show ?case
  proof (cases "k0 = k")
    case True
    with Cons.prems e show ?thesis by (simp add: grows_refl)
  next
    case False
    with Cons e show ?thesis by (simp add: grows_refl)
  qed
qed

lemma overlay_entries_Nil: "overlay_entries w [] des = Inr des"
  by simp

lemma overlay_grows:
  "overlay n dopt = Inr x \<Longrightarrow> walkable n \<Longrightarrow>
     (case dopt of None \<Rightarrow> walkable x | Some d \<Rightarrow> grows d x)"
  "overlay_entries w es des = Inr des' \<Longrightarrow> walkable_entries es \<Longrightarrow> grows_entries des des'"
proof (induction n dopt and w es des arbitrary: x and des' rule: overlay_overlay_entries.induct)
  case (9 m es)
  from "9.prems"(1) obtain es'' where c: "can_read m" "es = [] \<or> can_search m"
    and o: "overlay_entries True es [] = Inr es''" and x: "x = Dir m es''"
    by (auto split: if_splits sum.splits)
  from "9.prems"(2) have we: "walkable_entries es" by simp
  from "9.IH" [OF _ o we] c have "walkable_entries es''" by simp
  moreover have "es'' = [] \<or> can_search m"
  proof (cases "es = []")
    case True
    with o show ?thesis by simp
  next
    case False
    with c show ?thesis by simp
  qed
  ultimately show ?case using x c by simp
next
  case (12 m es m' es')
  from "12.prems"(1) obtain es'' where c: "can_read m" "es = [] \<or> (can_search m \<and> can_search m')"
    and o: "overlay_entries (can_write m') es es' = Inr es''" and x: "x = Dir m' es''"
    by (auto split: if_splits sum.splits)
  from "12.prems"(2) have we: "walkable_entries es" by simp
  from "12.IH" [OF _ o we] c have g: "grows_entries es' es''" by simp
  have "es' = [] \<longrightarrow> es'' = [] \<or> can_search m'"
  proof (cases "es = []")
    case True
    with o show ?thesis by simp
  next
    case False
    with c show ?thesis by simp
  qed
  with g x show ?case by simp
next
  case (13 w des)
  then show ?case by (simp add: grows_refl)
next
  case (14 w k c es des)
  from "14.prems"(1) have nw: "\<not> (lookup_entries des k [] = None \<and> \<not> w)"
    by (auto split: if_splits)
  with "14.prems"(1) obtain c' where oc: "overlay c (lookup_entries des k []) = Inr c'"
    and r: "overlay_entries w es (set_entry k c' des) = Inr des'"
    by (auto split: sum.splits if_splits)
  from "14.prems"(2) have wc: "walkable c" and we: "walkable_entries es" by simp_all
  from "14.IH"(1) [OF nw oc wc]
  have "case lookup_entries des k [] of None \<Rightarrow> walkable c' | Some d \<Rightarrow> grows d c'" .
  then have g1: "grows_entries des (set_entry k c' des)" by (rule set_entry_grows)
  from "14.IH"(2) [OF nw oc r we] have "grows_entries (set_entry k c' des) des'" .
  with g1 show ?case by (rule grows_trans(2))
qed (auto split: if_splits)

lemma overlay_kind:
  "overlay n dopt = Inr x \<Longrightarrow> \<forall>e. n \<noteq> Broken e \<Longrightarrow> \<forall>e. x \<noteq> Broken e"
proof (cases n)
  case (File r c)
  assume "overlay n dopt = Inr x"
  with File show "\<forall>e. x \<noteq> Broken e"
    by (cases dopt; cases "the dopt") (auto split: if_splits)
next
  case (Dir m es)
  assume "overlay n dopt = Inr x"
  with Dir show "\<forall>e. x \<noteq> Broken e"
    by (cases dopt; cases "the dopt") (auto split: if_splits sum.splits)
next
  case (Broken e)
  assume "\<forall>e. n \<noteq> Broken e"
  with Broken show "\<forall>e. x \<noteq> Broken e" by simp
qed

lemma put_grows:
  "put t p x = Inr t' \<Longrightarrow>
     (case lookup t p of None \<Rightarrow> walkable x | Some d \<Rightarrow> grows d x) \<Longrightarrow> grows t t'"
  "put_entries m es s p x = Inr es' \<Longrightarrow>
     (case lookup_entries es s p of None \<Rightarrow> walkable x | Some d \<Rightarrow> grows d x) \<Longrightarrow>
     grows_entries es es'"
proof (induction t p x and m es s p x arbitrary: t' and es' rule: put_put_entries.induct)
  case (1 t n)
  then show ?case by simp
next
  case (2 r c s p n)
  then show ?case by simp
next
  case (3 e s p n)
  then show ?case by simp
next
  case (4 m es s p n)
  from "4.prems"(1) obtain es' where s: "can_search m" and p: "put_entries m es s p n = Inr es'"
    and t': "t' = Dir m es'" by (auto split: if_splits sum.splits)
  from "4.IH" [OF _ p] s "4.prems"(2) have "grows_entries es es'" by simp
  with t' s show ?case by simp
next
  case (5 m s p n)
  then show ?case by (auto split: if_splits)
next
  case (6 m k c es s p n)
  show ?case
  proof (cases "k = s")
    case True
    with "6.prems" obtain c' where c': "put c p n = Inr c'" and e: "es' = (k, c') # es"
      by (auto split: sum.splits)
    from "6.IH"(1) [OF True c'] "6.prems"(2) True have "grows c c'" by simp
    with e show ?thesis by (simp add: grows_refl)
  next
    case False
    with "6.prems" obtain es'' where p: "put_entries m es s p n = Inr es''"
      and e: "es' = (k, c) # es''" by (auto split: sum.splits)
    from "6.IH"(2) [OF False p] "6.prems"(2) False have "grows_entries es es''" by simp
    with e show ?thesis by (simp add: grows_refl)
  qed
qed

lemma mkdir_grows:
  "mkdir_node n p = Inr n' \<Longrightarrow> grows n n'"
  "mkdir_entries m es s p = Inr es' \<Longrightarrow> grows_entries es es'"
proof (induction n p and m es s p arbitrary: n' and es' rule: mkdir_node_mkdir_entries.induct)
  case (1 r c p)
  then show ?case by (simp split: if_splits)
next
  case (2 e p)
  then show ?case by simp
next
  case (3 m es)
  then show ?case by (auto simp: grows_refl)
next
  case (4 m es s p)
  then show ?case by (auto split: sum.splits if_splits)
next
  case (5 m s p)
  then show ?case by (auto simp: walkable_fresh_dirs split: if_splits)
next
  case (6 m k c es s p)
  show ?case
  proof (cases "k = s")
    case True
    with 6 show ?thesis by (auto split: sum.splits simp: grows_refl)
  next
    case False
    with 6 show ?thesis by (auto split: sum.splits simp: grows_refl)
  qed
qed

lemma lookup_fresh_dirs: "\<not> prefix q p \<Longrightarrow> lookup (fresh_dirs p) q = None"
proof (induction p arbitrary: q)
  case Nil
  then show ?case by (cases q) simp_all
next
  case (Cons s p)
  then show ?case by (cases q) auto
qed

lemma mkdir_frame:
  "mkdir_node t p = Inr t' \<Longrightarrow> \<not> prefix q p \<Longrightarrow> lookup t' q = lookup t q"
  "mkdir_entries m es s p = Inr es' \<Longrightarrow> \<not> prefix (k # q) (s # p) \<Longrightarrow>
     lookup_entries es' k q = lookup_entries es k q"
proof (induction t p and m es s p arbitrary: t' q and es' k q rule: mkdir_node_mkdir_entries.induct)
  case (1 r c p)
  then show ?case by (simp split: if_splits)
next
  case (2 e p)
  then show ?case by simp
next
  case (3 m es)
  then show ?case by simp
next
  case (4 m es s p)
  from "4.prems"(2) obtain k q' where q: "q = k # q'" by (cases q) auto
  from "4.prems"(1) obtain es' where s: "can_search m" and m: "mkdir_entries m es s p = Inr es'"
    and t': "t' = Dir m es'" by (auto split: sum.splits if_splits)
  from "4.IH" [OF _ m] s "4.prems"(2) q have "lookup_entries es' k q' = lookup_entries es k q'"
    by simp
  with q t' show ?case by simp
next
  case (5 m s p)
  then show ?case by (auto simp: lookup_fresh_dirs split: if_splits)
next
  case (6 m k0 c0 es s p)
  show ?case
  proof (cases "k0 = s")
    case True
    with "6.prems"(1) obtain c' where m: "mkdir_node c0 p = Inr c'" and e: "es' = (k0, c') # es"
      by (auto split: sum.splits)
    show ?thesis
    proof (cases "k = k0")
      case k: True
      with "6.prems"(2) True have "\<not> prefix q p" by simp
      from "6.IH"(1) [OF True m this] e k show ?thesis by simp
    next
      case False
      with e show ?thesis by simp
    qed
  next
    case False
    with "6.prems"(1) obtain es'' where m: "mkdir_entries m es s p = Inr es''"
      and e: "es' = (k0, c0) # es''" by (auto split: sum.splits)
    from "6.IH"(2) [OF False m "6.prems"(2)] e show ?thesis by simp
  qed
qed

lemma mkdir_root: "mkdir_node t [] = Inr t' \<Longrightarrow> t' = t"
  by (cases t) (simp_all split: if_splits)

lemma mkdir_keeps_files:
  "mkdir_node t p = Inr t' \<Longrightarrow> lookup t q = Some (File r c) \<Longrightarrow> lookup t' q = Some (File r c)"
  "mkdir_entries m es s p = Inr es' \<Longrightarrow> lookup_entries es k q = Some (File r c) \<Longrightarrow>
     lookup_entries es' k q = Some (File r c)"
proof (induction t p and m es s p arbitrary: t' q and es' k q rule: mkdir_node_mkdir_entries.induct)
  case (1 r c p)
  then show ?case by (simp split: if_splits)
next
  case (2 e p)
  then show ?case by simp
next
  case (3 m es)
  then show ?case by simp
next
  case (4 m es s p)
  then show ?case by (cases q) (auto split: sum.splits if_splits)
next
  case (5 m s p)
  then show ?case by simp
next
  case (6 m k0 c0 es s p)
  show ?case
  proof (cases "k0 = s")
    case True
    with 6 show ?thesis by (auto split: sum.splits if_splits)
  next
    case False
    with 6 show ?thesis by (auto split: sum.splits if_splits)
  qed
qed

lemma mkdir_keys:
  "mkdir_entries m es s p = Inr es' \<Longrightarrow> fst ` set es' = insert s (fst ` set es)"
proof (induction es arbitrary: es')
  case Nil
  then show ?case by (auto split: if_splits)
next
  case (Cons e es)
  obtain k c where e: "e = (k, c)" by (cases e)
  show ?case
  proof (cases "k = s")
    case True
    with Cons.prems e show ?thesis by (auto split: sum.splits)
  next
    case False
    with Cons.prems e obtain es'' where m: "mkdir_entries m es s p = Inr es''"
      and e': "es' = (k, c) # es''" by (auto split: sum.splits)
    from Cons.IH [OF m] e e' show ?thesis by auto
  qed
qed

lemma mkdir_distinct:
  "mkdir_node t p = Inr t' \<Longrightarrow> distinct_names t \<Longrightarrow> distinct_names t'"
  "mkdir_entries m es s p = Inr es' \<Longrightarrow> distinct_names_entries es \<Longrightarrow> distinct_names_entries es'"
proof (induction t p and m es s p arbitrary: t' and es' rule: mkdir_node_mkdir_entries.induct)
  case (1 r c p)
  then show ?case by (simp split: if_splits)
next
  case (2 e p)
  then show ?case by simp
next
  case (3 m es)
  then show ?case by auto
next
  case (4 m es s p)
  then show ?case by (auto split: sum.splits if_splits)
next
  case (5 m s p)
  then show ?case by (auto simp: distinct_fresh_dirs split: if_splits)
next
  case (6 m k c es s p)
  show ?case
  proof (cases "k = s")
    case True
    with 6 show ?thesis by (auto split: sum.splits)
  next
    case False
    with "6.prems" obtain es'' where m: "mkdir_entries m es s p = Inr es''"
      and e': "es' = (k, c) # es''" by (auto split: sum.splits)
    from mkdir_keys [OF m] False "6.prems"(2) have "k \<notin> fst ` set es''" by simp
    moreover from "6.IH"(2) [OF False m] "6.prems"(2) have "distinct_names_entries es''" by simp
    ultimately show ?thesis using e' "6.prems"(2) by simp
  qed
qed

lemma lookup_distinct:
  "lookup t p = Some n \<Longrightarrow> distinct_names t \<Longrightarrow> distinct_names n"
  "lookup_entries es s p = Some n \<Longrightarrow> distinct_names_entries es \<Longrightarrow> distinct_names n"
  by (induction t p and es s p rule: lookup_lookup_entries.induct) (auto split: if_splits)

lemma overlay_keeps_files:
  "overlay n dopt = Inr x \<Longrightarrow> distinct_names n \<Longrightarrow>
     lookup n q = Some (File r c) \<Longrightarrow> lookup x q = Some (File r c)"
  "overlay_entries w es des = Inr des' \<Longrightarrow> distinct_names_entries es \<Longrightarrow>
     (\<forall>k q r c. lookup_entries es k q = Some (File r c) \<longrightarrow>
        lookup_entries des' k q = Some (File r c)) \<and>
     (\<forall>k q. k \<notin> fst ` set es \<longrightarrow> lookup_entries des' k q = lookup_entries des k q)"
proof (induction n dopt and w es des arbitrary: x q r c and des' rule: overlay_overlay_entries.induct)
  case (1 r0 c0)
  then show ?case by (cases q) (auto split: if_splits)
next
  case (2 r0 c0 r' c')
  then show ?case by (cases q) (auto split: if_splits)
next
  case (3 r0 c0 e')
  then show ?case by (cases q) (auto split: if_splits)
next
  case (5 e)
  then show ?case by (cases q) auto
next
  case (6 e e')
  then show ?case by (cases q) auto
next
  case (9 m es)
  from "9.prems"(1) obtain es'' where cnd: "can_read m \<and> (es = [] \<or> can_search m)"
    and o: "overlay_entries True es [] = Inr es''"
    and x: "x = Dir m es''" by (auto split: if_splits sum.splits)
  from "9.prems"(3) obtain k q' where q: "q = k # q'" by (cases q) auto
  from "9.IH" [OF cnd o] "9.prems"(2) "9.prems"(3) q
  have "lookup_entries es'' k q' = Some (File r c)" by simp
  with x q show ?case by simp
next
  case (12 m es m' es')
  from "12.prems"(1) obtain es'' where cnd: "can_read m \<and> (es = [] \<or> can_search m \<and> can_search m')"
    and o: "overlay_entries (can_write m') es es' = Inr es''"
    and x: "x = Dir m' es''" by (auto split: if_splits sum.splits)
  from "12.prems"(3) obtain k q' where q: "q = k # q'" by (cases q) auto
  from "12.IH" [OF cnd o] "12.prems"(2) "12.prems"(3) q
  have "lookup_entries es'' k q' = Some (File r c)" by simp
  with x q show ?case by simp
next
  case (13 w des)
  then show ?case by simp
next
  case (14 w k0 c0 es des)
  from "14.prems"(2) have nk: "k0 \<notin> fst ` set es" and dc: "distinct_names c0"
    and de: "distinct_names_entries es" by simp_all
  from "14.prems"(1) have nw: "\<not> (lookup_entries des k0 [] = None \<and> \<not> w)"
    by (auto split: if_splits)
  with "14.prems"(1) obtain c' where oc: "overlay c0 (lookup_entries des k0 []) = Inr c'"
    and o: "overlay_entries w es (set_entry k0 c' des) = Inr des'"
    by (auto split: sum.splits if_splits)
  from "14.IH"(2) [OF nw oc o de]
  have ih1: "\<And>k q r c. lookup_entries es k q = Some (File r c) \<Longrightarrow>
                lookup_entries des' k q = Some (File r c)"
    and ih2: "\<And>k q. k \<notin> fst ` set es \<Longrightarrow>
                lookup_entries des' k q = lookup_entries (set_entry k0 c' des) k q"
    by simp_all
  have "lookup_entries des' k q = Some (File r c)"
    if l: "lookup_entries ((k0, c0) # es) k q = Some (File r c)" for k q r c
  proof (cases "k0 = k")
    case True
    with l have "lookup c0 q = Some (File r c)" by simp
    from "14.IH"(1) [OF nw oc dc this] have "lookup c' q = Some (File r c)" .
    moreover from ih2 [of k q] nk True
    have "lookup_entries des' k q = lookup_entries (set_entry k0 c' des) k q" by simp
    ultimately show ?thesis using True by (simp add: lookup_set_entry_same)
  next
    case False
    with l have "lookup_entries es k q = Some (File r c)" by simp
    then show ?thesis by (rule ih1)
  qed
  moreover have "lookup_entries des' k q = lookup_entries des k q"
    if "k \<notin> fst ` set ((k0, c0) # es)" for k q
  proof -
    from that have "k \<noteq> k0" "k \<notin> fst ` set es" by auto
    with ih2 [of k q] show ?thesis by (simp add: lookup_set_entry_other)
  qed
  ultimately show ?case by blast
qed simp_all

lemma lookup_entries_absent: "k \<notin> fst ` set des \<Longrightarrow> lookup_entries des k q = None"
  by (induction des) auto

lemma set_entry_absent: "k \<notin> fst ` set des \<Longrightarrow> set_entry k c des = des @ [(k, c)]"
  by (induction des) auto

lemma overlay_fresh:
  "overlay n dopt = Inr x \<Longrightarrow> distinct_names n \<Longrightarrow> dopt = None \<Longrightarrow> x = n"
  "overlay_entries w es des = Inr des' \<Longrightarrow> distinct_names_entries es \<Longrightarrow>
     fst ` set es \<inter> fst ` set des = {} \<Longrightarrow> des' = des @ es"
proof (induction n dopt and w es des arbitrary: x and des' rule: overlay_overlay_entries.induct)
  case (1 r c)
  then show ?case by (auto split: if_splits)
next
  case (9 m es)
  from "9.prems"(1) obtain es'' where cnd: "can_read m \<and> (es = [] \<or> can_search m)"
    and o: "overlay_entries True es [] = Inr es''"
    and x: "x = Dir m es''" by (auto split: if_splits sum.splits)
  from "9.IH" [OF cnd o] "9.prems"(2) have "es'' = es" by simp
  with x show ?case by simp
next
  case (14 w k c es des)
  from "14.prems"(2) have nk: "k \<notin> fst ` set es" and dc: "distinct_names c"
    and de: "distinct_names_entries es" by simp_all
  from "14.prems"(3) have kd: "k \<notin> fst ` set des" by auto
  then have l: "lookup_entries des k [] = None" by (rule lookup_entries_absent)
  from "14.prems"(1) have nw: "\<not> (lookup_entries des k [] = None \<and> \<not> w)"
    by (auto split: if_splits)
  with "14.prems"(1) obtain c' where oc: "overlay c (lookup_entries des k []) = Inr c'"
    and r: "overlay_entries w es (set_entry k c' des) = Inr des'"
    by (auto split: sum.splits if_splits)
  from "14.IH"(1) [OF nw oc dc l] have c': "c' = c" .
  have disj: "fst ` set es \<inter> fst ` set (set_entry k c' des) = {}"
    using nk "14.prems"(3) by (auto simp: keys_set_entry)
  from "14.IH"(2) [OF nw oc r de disj] have "des' = set_entry k c' des @ es" .
  with c' kd show ?case by (simp add: set_entry_absent)
qed simp_all

lemma cpSync_ok:
  assumes "cpSync fs src dest = Inr fs2"
  shows "\<exists>n fs1 x. lstat fs src = Inr n \<and> \<not> prefix src dest \<and>
           (fs1 = fs \<or> mkdir_node fs (dirname dest) = Inr fs1) \<and>
           overlay n (lookup fs1 dest) = Inr x \<and> put fs1 dest x = Inr fs2"
proof -
  from assms obtain n where n: "lstat fs src = Inr n"
    by (cases "lstat fs src") (simp_all add: cpSync_def)
  let ?d = "case lstat fs dest of Inl e \<Rightarrow> if e = ENOENT then Inr None else Inl e
            | Inr d \<Rightarrow> Inr (Some d)"
  from assms n obtain dopt where d: "?d = Inr dopt"
    by (cases ?d) (simp_all add: cpSync_def)
  then have ld: "lookup fs dest = dopt"
    by (auto split: sum.splits if_splits dest: lstat_lookup(1) lstat_absent(1))
  from assms n d have np: "\<not> prefix src dest"
    by (auto simp: cpSync_def split: if_splits)
  let ?m = "if \<not> existsSync fs (dirname dest) then mkdirSync_recursive fs (dirname dest) else Inr fs"
  from assms n d np obtain fs1 where m: "?m = Inr fs1"
    by (cases ?m) (simp_all add: cpSync_def)
  then have f1: "fs1 = fs \<or> mkdir_node fs (dirname dest) = Inr fs1"
    by (auto simp: mkdirSync_recursive_def split: if_splits)
  from assms n d np m obtain x where o: "overlay n dopt = Inr x" and p: "put fs1 dest x = Inr fs2"
    by (cases "overlay n dopt") (simp_all add: cpSync_def)
  have "lookup fs1 dest = lookup fs dest"
  proof (cases "dest = []")
    case True
    with f1 show ?thesis by (auto simp: dirname_def dest: mkdir_root)
  next
    case False
    then have "length (dirname dest) < length dest" by (simp add: dirname_def)
    then have "\<not> prefix dest (dirname dest)" using prefix_length_le [of dest "dirname dest"] by auto
    with f1 show ?thesis using mkdir_frame(1) by blast
  qed
  with ld o have "overlay n (lookup fs1 dest) = Inr x" by simp
  with n np f1 p show ?thesis by blast
qed

lemma lstat_fresh_dirs: "\<not> prefix q p \<Longrightarrow> lstat (fresh_dirs p) q = Inl ENOENT"
proof (induction p arbitrary: q)
  case Nil
  then show ?case by (cases q) (simp_all add: rwx_def)
next
  case (Cons s p)
  then show ?case by (cases q) (auto simp: rwx_def)
qed

lemma mkdir_frame_lstat:
  "mkdir_node t p = Inr t' \<Longrightarrow> \<not> prefix q p \<Longrightarrow> lstat t' q = lstat t q"
  "mkdir_entries m es s p = Inr es' \<Longrightarrow> \<not> prefix (k # q) (s # p) \<Longrightarrow>
     lstat_entries es' k q = lstat_entries es k q"
proof (induction t p and m es s p arbitrary: t' q and es' k q rule: mkdir_node_mkdir_entries.induct)
  case (1 r c p)
  then show ?case by (simp split: if_splits)
next
  case (2 e p)
  then show ?case by simp
next
  case (3 m es)
  then show ?case by simp
next
  case (4 m es s p)
  from "4.prems"(2) obtain k q' where q: "q = k # q'" by (cases q) auto
  from "4.prems"(1) obtain es' where s: "can_search m" and m: "mkdir_entries m es s p = Inr es'"
    and t': "t' = Dir m es'" by (auto split: sum.splits if_splits)
  from "4.IH" [OF _ m] s "4.prems"(2) q have "lstat_entries es' k q' = lstat_entries es k q'"
    by simp
  with q t' show ?case by simp
next
  case (5 m s p)
  then show ?case by (auto simp: lstat_fresh_dirs split: if_splits)
next
  case (6 m k0 c0 es s p)
  show ?case
  proof (cases "k0 = s")
    case True
    with "6.prems"(1) obtain c' where m: "mkdir_node c0 p = Inr c'" and e: "es' = (k0, c') # es"
      by (auto split: sum.splits)
    show ?thesis
    proof (cases "k = k0")
      case k: True
      with "6.prems"(2) True have "\<not> prefix q p" by simp
      from "6.IH"(1) [OF True m this] e k show ?thesis by simp
    next
      case False
      with e show ?thesis by simp
    qed
  next
    case False
    with "6.prems"(1) obtain es'' where m: "mkdir_entries m es s p = Inr es''"
      and e: "es' = (k0, c0) # es''" by (auto split: sum.splits)
    from "6.IH"(2) [OF False m "6.prems"(2)] e show ?thesis by simp
  qed
qed

lemma overlay_onto_broken: "overlay n (Some (Broken e)) = Inr x \<Longrightarrow> x = n"
  by (cases n) (auto split: if_splits)

lemma cpSync_dest:
  assumes "cpSync fs src dest = Inr fs2"
  shows "lstat fs dest = Inl ENOENT \<or> (\<exists>d. lstat fs dest = Inr d)"
proof (cases "lstat fs src")
  case (Inl e)
  with assms show ?thesis by (simp add: cpSync_def)
next
  case (Inr n)
  with assms show ?thesis
    by (cases "lstat fs dest") (auto simp: cpSync_def split: if_splits)
qed

lemma cpSync_grows:
  assumes "cpSync fs src dest = Inr fs2" and "\<And>n. lstat fs src = Inr n \<Longrightarrow> walkable n"
  shows "grows fs fs2"
proof -
  from cpSync_ok [OF assms(1)] obtain n fs1 x where
    n: "lstat fs src = Inr n" and
    f1: "fs1 = fs \<or> mkdir_node fs (dirname dest) = Inr fs1" and
    o: "overlay n (lookup fs1 dest) = Inr x" and p: "put fs1 dest x = Inr fs2"
    by blast
  from f1 have g1: "grows fs fs1" using grows_refl(1) mkdir_grows(1) by blast
  from overlay_grows(1) [OF o assms(2) [OF n]] put_grows(1) [OF p] have "grows fs1 fs2" by blast
  with g1 show ?thesis by (rule grows_trans(1))
qed

lemma walkable_not_broken: "walkable n \<Longrightarrow> \<forall>e. n \<noteq> Broken e"
  by auto

lemma cpSync_exists:
  assumes "cpSync fs src dest = Inr fs2" and "\<And>n. lstat fs src = Inr n \<Longrightarrow> walkable n"
  shows "existsSync fs2 dest"
proof -
  from cpSync_ok [OF assms(1)] obtain n fs1 x where
    n: "lstat fs src = Inr n" and
    o: "overlay n (lookup fs1 dest) = Inr x" and p: "put fs1 dest x = Inr fs2"
    by blast
  from overlay_kind [OF o walkable_not_broken [OF assms(2) [OF n]]] have "\<forall>e. x \<noteq> Broken e" .
  from lstat_statSync [OF lstat_put(1) [OF p] this] show ?thesis by (rule statSync_exists)
qed

lemma cpSync_files:
  assumes "cpSync fs src dest = Inr fs2" and "distinct_names fs"
    and "lookup fs (src @ q) = Some (File r c)"
  shows "lookup fs2 (dest @ q) = Some (File r c)"
proof -
  from cpSync_ok [OF assms(1)] obtain n fs1 x where
    n: "lstat fs src = Inr n" and
    o: "overlay n (lookup fs1 dest) = Inr x" and p: "put fs1 dest x = Inr fs2"
    by blast
  from lstat_lookup(1) [OF n] have n': "lookup fs src = Some n" .
  with assms(3) have "lookup n q = Some (File r c)" by (simp add: lookup_append(1))
  moreover from lookup_distinct(1) [OF n' assms(2)] have "distinct_names n" .
  ultimately have "lookup x q = Some (File r c)" using overlay_keeps_files(1) [OF o] by blast
  with lookup_put [OF p] show ?thesis by (simp add: lookup_append(1))
qed

lemma find_Some_D: "find P xs = Some x \<Longrightarrow> x \<in> set xs \<and> P x"
  by (induction xs) (auto split: if_splits)

lemma handleInstallSkill_found:
  assumes "findSkills ev fs = Inr catalog" and "find (\<lambda>s. name s = n) catalog = Some target"
  shows "handleInstallSkill ev fs (JStr n) =
     (if existsSync fs (path_join (getGeminiSkillsDir ev) n)
      then Inr (AlreadyInstalled (path_join (getGeminiSkillsDir ev) n), fs)
      else (case ensure_base ev fs of
              Inl e \<Rightarrow> Inr (ErrorCreatingDir e, fs)
            | Inr fs1 \<Rightarrow>
                (case cpSync fs1 (path target) (path_join (getGeminiSkillsDir ev) n) of
                   Inr fs2 \<Rightarrow> Inr (Installed (path_join (getGeminiSkillsDir ev) n), fs2)
                 | Inl e \<Rightarrow>
                     Inr (ErrorInstalling e,
                          partial_copy ev fs1 (path target) (path_join (getGeminiSkillsDir ev) n)))))"
  using assms by (simp add: handleInstallSkill_def ensure_base_def Let_def)

lemma ensure_base_cases:
  "ensure_base ev fs = Inr fs1 \<Longrightarrow> fs1 = fs \<or> mkdir_node fs (getGeminiSkillsDir ev) = Inr fs1"
  by (auto simp: ensure_base_def mkdirSync_recursive_def split: if_splits)

lemma ensure_base_grows: "ensure_base ev fs = Inr fs1 \<Longrightarrow> grows fs fs1"
  using ensure_base_cases grows_refl(1) mkdir_grows(1) by blast

lemma installed_cases:
  assumes "handleInstallSkill ev fs (JStr n) = Inr (Installed d, fs')"
  shows "\<exists>catalog target fs1.
           findSkills ev fs = Inr catalog \<and>
           find (\<lambda>s. name s = n) catalog = Some target \<and>
           d = path_join (getGeminiSkillsDir ev) n \<and> \<not> existsSync fs d \<and>
           ensure_base ev fs = Inr fs1 \<and>
           cpSync fs1 (path target) d = Inr fs'"
proof (cases "findSkills ev fs")
  case (Inl e)
  with assms show ?thesis by (simp add: handleInstallSkill_def)
next
  case (Inr catalog)
  show ?thesis
  proof (cases "find (\<lambda>s. name s = n) catalog")
    case None
    with assms Inr show ?thesis by (simp add: handleInstallSkill_def)
  next
    case (Some target)
    note h = handleInstallSkill_found [OF Inr Some]
    let ?d = "path_join (getGeminiSkillsDir ev) n"
    from assms h have ne: "\<not> existsSync fs ?d" by (auto split: if_splits)
    show ?thesis
    proof (cases "ensure_base ev fs")
      case (Inl e)
      with assms h ne show ?thesis by simp
    next
      case fs1: (Inr fs1)
      show ?thesis
      proof (cases "cpSync fs1 (path target) ?d")
        case (Inl e)
        with assms h ne fs1 show ?thesis by simp
      next
        case (Inr fs2)
        with assms h ne fs1 have "d = ?d" "fs' = fs2" by simp_all
        with Inr ne fs1 Some \<open>findSkills ev fs = Inr catalog\<close> show ?thesis by simp
      qed
    qed
  qed
qed

lemma catalog_source:
  assumes "findSkills ev fs = Inr catalog" and "e \<in> set catalog"
  shows "\<exists>P f q. statSync fs (plugins_dir ev) = Inr P \<and> is_dir P \<and> walkable P \<and>
           f \<in> set (skill_files (files_of (plugins_dir ev) P)) \<and> e = make_skill ev fs f \<and>
           path e = plugins_dir ev @ q \<and>
           catalog = sort_by (by_name ev) (map (make_skill ev fs) (skill_files (files_of (plugins_dir ev) P)))"
proof -
  from findSkills_Inr [OF assms(1)] obtain allFiles where
    w: "walkSync fs (plugins_dir ev) [] = Inr allFiles" and
    c: "catalog = sort_by (by_name ev) (map (make_skill ev fs) (skill_files allFiles))"
    by blast
  from assms(2) c obtain f where f: "f \<in> set (skill_files allFiles)"
    and e: "e = make_skill ev fs f" by (auto simp: set_sort_by)
  from f have "allFiles \<noteq> []" by (auto simp: skill_files_def)
  with w obtain P where P: "statSync fs (plugins_dir ev) = Inr P"
    and wP: "walk_node (plugins_dir ev) P [] = Inr allFiles"
    by (cases "statSync fs (plugins_dir ev)")
       (auto simp: walkSync_def existsSync_def split: if_splits)
  from wP have k: "is_dir P" "walkable P" and a: "allFiles = files_of (plugins_dir ev) P"
    by (simp_all add: walk_node_iff)
  from f have "f \<in> set (files_of (plugins_dir ev) P)" by (simp add: a skill_files_def)
  from files_prefix(1) [OF this] obtain q where "q \<noteq> []" "f = plugins_dir ev @ q" by blast
  then have "path e = plugins_dir ev @ butlast q"
    by (simp add: e make_skill_def dirname_def butlast_append)
  with P k f e a c show ?thesis by blast
qed

lemma source_walkable:
  assumes "findSkills ev fs = Inr catalog" and "target \<in> set catalog" and "grows fs fs1"
    and "lstat fs1 (path target) = Inr n0"
  shows "walkable n0"
proof -
  from catalog_source [OF assms(1,2)] obtain P q where
    P: "statSync fs (plugins_dir ev) = Inr P" and w: "walkable P"
    and q: "path target = plugins_dir ev @ q" by blast
  from statSync_grows [OF assms(3) P] obtain P1 where
    P1: "statSync fs1 (plugins_dir ev) = Inr P1" and g: "grows P P1" by blast
  from grows_walkable(1) [OF g w] have w1: "walkable P1" .
  from statSync_lstat [OF P1] have "lstat fs1 (plugins_dir ev) = Inr P1" by simp
  with assms(4) q have "lstat P1 q = Inr n0" by (simp add: lstat_append(1))
  with w1 show ?thesis by (rule walkable_lstat(1))
qed

lemma catalog_grows:
  assumes "findSkills ev fs = Inr catalog" and "e \<in> set catalog" and "grows fs fs2"
  shows "\<exists>catalog2. findSkills ev fs2 = Inr catalog2 \<and> (\<exists>e2\<in>set catalog2. name e2 = name e)"
proof -
  let ?p = "plugins_dir ev"
  from catalog_source [OF assms(1,2)] obtain P f where
    P: "statSync fs ?p = Inr P" and d: "is_dir P" and w: "walkable P"
    and f: "f \<in> set (skill_files (files_of ?p P))" and e: "e = make_skill ev fs f" by blast
  from statSync_grows [OF assms(3) P] obtain P2 where
    P2: "statSync fs2 ?p = Inr P2" and g: "grows P P2" and d2: "is_dir P2 = is_dir P" by blast
  from grows_walkable(1) [OF g w] have w2: "walkable P2" .
  from walk_files(1) [OF w2, of ?p "[]"] d d2
  have "walk_node ?p P2 [] = Inr (files_of ?p P2)" by simp
  with findSkills_stat [OF P2]
  have c2: "findSkills ev fs2 =
      Inr (sort_by (by_name ev) (map (make_skill ev fs2) (skill_files (files_of ?p P2))))" by simp
  from files_grows(1) [OF g w, of ?p] f have "f \<in> set (skill_files (files_of ?p P2))"
    by (auto simp: skill_files_def)
  then have "make_skill ev fs2 f \<in>
      set (sort_by (by_name ev) (map (make_skill ev fs2) (skill_files (files_of ?p P2))))"
    by (simp add: set_sort_by)
  moreover have "name (make_skill ev fs2 f) = name e" by (simp add: e make_skill_def)
  ultimately show ?thesis using c2 by blast
qed

section \<open>Installing twice, and what an install copies\<close>

lemmas install_eval = ensure_base_def mkdirSync_recursive_def getGeminiSkillsDir_def cpSync_def
  path_join_def dirname_def fs_eval

lemma demo_dest_eq: "path_join (getGeminiSkillsDir demo_env) (js ''tools'') = demo_dest"
  by (simp add: path_join_def getGeminiSkillsDir_def demo_env_def demo_dest_def js_def)

lemma demo_absent: "\<not> existsSync demo_fs demo_dest"
  by (simp add: fs_eval demo_fs_def demo_dest_def js_def)

lemma demo_found: "find (\<lambda>s. name s = js ''tools'') [demo_skill] = Some demo_skill"
  by (simp add: demo_skill_def)

lemma demo_mkdir:
  "ensure_base demo_env demo_fs =
     Inr (Dir rwx [(js ''plugins'', demo_plugins),
        (js ''home'', Dir rwx [(js ''.gemini'', Dir rwx [(js ''skills'', Dir rwx [])])])])"
  by (simp add: install_eval demo_env_def demo_fs_def js_def)

lemma demo_copy:
  "cpSync (Dir rwx [(js ''plugins'', demo_plugins),
        (js ''home'', Dir rwx [(js ''.gemini'', Dir rwx [(js ''skills'', Dir rwx [])])])])
     (path demo_skill) demo_dest = Inr demo_installed_fs"
  by (simp add: install_eval demo_skill_def demo_dest_def demo_plugins_def demo_skill_dir_def
      demo_installed_fs_def js_def)

lemma demo_install:
  "handleInstallSkill demo_env demo_fs (JStr (js ''tools'')) = Inr (Installed demo_dest, demo_installed_fs)"
  using demo_absent
  by (simp add: handleInstallSkill_found [OF demo_catalog demo_found] demo_dest_eq demo_mkdir demo_copy)

lemma blocked_catalog: "findSkills demo_env blocked_fs = Inr [demo_skill]"
  by (simp add: demo_env_def blocked_fs_def demo_plugins_def demo_skill_dir_def demo_skill_def
      js_def catalog_eval regex_eval)

lemma blocked_absent: "\<not> existsSync blocked_fs demo_dest"
  by (simp add: fs_eval blocked_fs_def demo_dest_def js_def)

lemma blocked_mkdir: "ensure_base demo_env blocked_fs = Inl ENOTDIR"
  by (simp add: install_eval demo_env_def blocked_fs_def js_def)

lemma readonly_catalog: "findSkills demo_env readonly_home_fs = Inr [demo_skill]"
  by (simp add: demo_env_def readonly_home_fs_def demo_plugins_def demo_skill_dir_def demo_skill_def
      js_def catalog_eval regex_eval)

lemma readonly_absent: "\<not> existsSync readonly_home_fs demo_dest"
  by (simp add: fs_eval readonly_home_fs_def demo_dest_def js_def)

lemma readonly_mkdir: "ensure_base demo_env readonly_home_fs = Inl EACCES"
  by (simp add: install_eval demo_env_def readonly_home_fs_def js_def)

lemma secret_catalog:
  "findSkills demo_env secret_fs =
     Inr [\<lparr>name = js ''tools'', path = [js ''plugins'', js ''tools''], description = js ''Hello world''\<rparr>]"
  by (simp add: demo_env_def secret_fs_def js_def catalog_eval regex_eval)

lemma secret_absent: "\<not> existsSync secret_fs demo_dest"
  by (simp add: fs_eval secret_fs_def demo_dest_def js_def)

lemma secret_mkdir:
  "ensure_base demo_env secret_fs =
     Inr (Dir rwx
       [(js ''plugins'', Dir rwx
          [(js ''tools'', Dir rwx
             [(js ''SKILL.md'', File True (js ''---\<newline>description: Hello world\<newline>---\<newline>'')),
              (js ''resource.txt'', File False (js ''data''))])]),
        (js ''home'', Dir rwx [(js ''.gemini'', Dir rwx [(js ''skills'', Dir rwx [])])])])"
  by (simp add: install_eval demo_env_def secret_fs_def js_def)

lemma secret_copy:
  "cpSync (Dir rwx
       [(js ''plugins'', Dir rwx
          [(js ''tools'', Dir rwx
             [(js ''SKILL.md'', File True (js ''---\<newline>description: Hello world\<newline>---\<newline>'')),
              (js ''resource.txt'', File False (js ''data''))])]),
        (js ''home'', Dir rwx [(js ''.gemini'', Dir rwx [(js ''skills'', Dir rwx [])])])])
     [js ''plugins'', js ''tools''] demo_dest = Inl EACCES"
  by (simp add: install_eval demo_dest_def js_def)

text \<open>
  C1, as the code has it: for a skill in the catalog (\<open>target\<close>, the first entry of the
  requested name) and a destination that does not exist, the first call yields
  \<open>Installed\<close> unless creating the skills directory or the copy fails. When \<open>mkdirSync\<close>
  throws, the outcome is the error of line 160 and the file system is left as it was;
  when \<open>cpSync\<close> throws, the outcome is the error of line 168; when neither throws, the
  outcome is \<open>Installed\<close>, and then the second call yields \<open>AlreadyInstalled\<close> and
  returns the file system it was given, so the destination tree is the one the first
  call left.
\<close>

theorem install_twice:
  assumes "findSkills ev fs = Inr catalog" and "find (\<lambda>s. name s = n) catalog = Some target"
    and "\<not> existsSync fs (path_join (getGeminiSkillsDir ev) n)"
  shows "(\<forall>e. ensure_base ev fs = Inl e \<longrightarrow>
            handleInstallSkill ev fs (JStr n) = Inr (ErrorCreatingDir e, fs)) \<and>
         (\<forall>fs1 e. ensure_base ev fs = Inr fs1 \<and>
              cpSync fs1 (path target) (path_join (getGeminiSkillsDir ev) n) = Inl e \<longrightarrow>
            (\<exists>fs2. handleInstallSkill ev fs (JStr n) = Inr (ErrorInstalling e, fs2))) \<and>
         (\<forall>fs1 fs2. ensure_base ev fs = Inr fs1 \<and>
              cpSync fs1 (path target) (path_join (getGeminiSkillsDir ev) n) = Inr fs2 \<longrightarrow>
            handleInstallSkill ev fs (JStr n) =
              Inr (Installed (path_join (getGeminiSkillsDir ev) n), fs2) \<and>
            handleInstallSkill ev fs2 (JStr n) =
              Inr (AlreadyInstalled (path_join (getGeminiSkillsDir ev) n), fs2))"
proof (intro conjI allI impI)
  fix e
  assume "ensure_base ev fs = Inl e"
  with assms(3) show "handleInstallSkill ev fs (JStr n) = Inr (ErrorCreatingDir e, fs)"
    by (simp add: handleInstallSkill_found [OF assms(1,2)])
next
  fix fs1 e
  assume "ensure_base ev fs = Inr fs1 \<and>
          cpSync fs1 (path target) (path_join (getGeminiSkillsDir ev) n) = Inl e"
  with assms(3) show "\<exists>fs2. handleInstallSkill ev fs (JStr n) = Inr (ErrorInstalling e, fs2)"
    by (simp add: handleInstallSkill_found [OF assms(1,2)])
next
  fix fs1 fs2
  assume a: "ensure_base ev fs = Inr fs1 \<and>
          cpSync fs1 (path target) (path_join (getGeminiSkillsDir ev) n) = Inr fs2"
  with assms(3) show "handleInstallSkill ev fs (JStr n) =
              Inr (Installed (path_join (getGeminiSkillsDir ev) n), fs2)"
    by (simp add: handleInstallSkill_found [OF assms(1,2)])
next
  fix fs1 fs2
  let ?d = "path_join (getGeminiSkillsDir ev) n"
  assume a: "ensure_base ev fs = Inr fs1 \<and> cpSync fs1 (path target) ?d = Inr fs2"
  then have b: "ensure_base ev fs = Inr fs1" and c: "cpSync fs1 (path target) ?d = Inr fs2"
    by simp_all
  from find_Some_D [OF assms(2)] have t: "target \<in> set catalog" "name target = n" by simp_all
  from ensure_base_grows [OF b] have g1: "grows fs fs1" .
  have w: "walkable n0" if "lstat fs1 (path target) = Inr n0" for n0
    using assms(1) t(1) g1 that by (rule source_walkable)
  from cpSync_grows [OF c w] have "grows fs1 fs2" .
  with g1 have g: "grows fs fs2" by (rule grows_trans(1))
  from cpSync_exists [OF c w] have ex: "existsSync fs2 ?d" .
  from catalog_grows [OF assms(1) t(1) g] t(2) obtain catalog2 e2 where
    c2: "findSkills ev fs2 = Inr catalog2" and e2: "e2 \<in> set catalog2" "name e2 = n" by blast
  from e2 obtain t2 where "find (\<lambda>s. name s = n) catalog2 = Some t2"
    by (cases "find (\<lambda>s. name s = n) catalog2") (auto simp: find_None_iff)
  from handleInstallSkill_found [OF c2 this] ex
  show "handleInstallSkill ev fs2 (JStr n) = Inr (AlreadyInstalled ?d, fs2)" by simp
qed

theorem install_twice_witness:
  "findSkills demo_env demo_fs = Inr [demo_skill] \<and>
   find (\<lambda>s. name s = js ''tools'') [demo_skill] = Some demo_skill \<and>
   path_join (getGeminiSkillsDir demo_env) (js ''tools'') = demo_dest \<and>
   \<not> existsSync demo_fs demo_dest \<and>
   ensure_base demo_env demo_fs =
     Inr (Dir rwx [(js ''plugins'', demo_plugins),
        (js ''home'', Dir rwx [(js ''.gemini'', Dir rwx [(js ''skills'', Dir rwx [])])])]) \<and>
   cpSync (Dir rwx [(js ''plugins'', demo_plugins),
        (js ''home'', Dir rwx [(js ''.gemini'', Dir rwx [(js ''skills'', Dir rwx [])])])])
     (path demo_skill) demo_dest = Inr demo_installed_fs \<and>
   handleInstallSkill demo_env demo_fs (JStr (js ''tools'')) =
     Inr (Installed demo_dest, demo_installed_fs) \<and>
   handleInstallSkill demo_env demo_installed_fs (JStr (js ''tools'')) =
     Inr (AlreadyInstalled demo_dest, demo_installed_fs) \<and>
   findSkills demo_env readonly_home_fs = Inr [demo_skill] \<and>
   \<not> existsSync readonly_home_fs demo_dest \<and>
   ensure_base demo_env readonly_home_fs = Inl EACCES \<and>
   handleInstallSkill demo_env readonly_home_fs (JStr (js ''tools'')) =
     Inr (ErrorCreatingDir EACCES, readonly_home_fs) \<and>
   findSkills demo_env secret_fs =
     Inr [\<lparr>name = js ''tools'', path = [js ''plugins'', js ''tools''], description = js ''Hello world''\<rparr>] \<and>
   \<not> existsSync secret_fs demo_dest \<and>
   (\<exists>fs1. ensure_base demo_env secret_fs = Inr fs1 \<and>
      cpSync fs1 [js ''plugins'', js ''tools''] demo_dest = Inl EACCES) \<and>
   (\<exists>fs2. handleInstallSkill demo_env secret_fs (JStr (js ''tools'')) =
      Inr (ErrorInstalling EACCES, fs2))"
proof -
  have a: "\<not> existsSync demo_fs (path_join (getGeminiSkillsDir demo_env) (js ''tools''))"
    using demo_absent by (simp add: demo_dest_eq)
  note t1 = install_twice [OF demo_catalog demo_found a]
  from t1 demo_mkdir demo_copy
  have h1: "handleInstallSkill demo_env demo_fs (JStr (js ''tools'')) =
              Inr (Installed demo_dest, demo_installed_fs)"
    and h2: "handleInstallSkill demo_env demo_installed_fs (JStr (js ''tools'')) =
              Inr (AlreadyInstalled demo_dest, demo_installed_fs)"
    by (simp_all add: demo_dest_eq)
  have b: "\<not> existsSync readonly_home_fs (path_join (getGeminiSkillsDir demo_env) (js ''tools''))"
    using readonly_absent by (simp add: demo_dest_eq)
  from install_twice [OF readonly_catalog demo_found b] readonly_mkdir
  have h3: "handleInstallSkill demo_env readonly_home_fs (JStr (js ''tools'')) =
     Inr (ErrorCreatingDir EACCES, readonly_home_fs)" by simp
  let ?s = "\<lparr>name = js ''tools'', path = [js ''plugins'', js ''tools''], description = js ''Hello world''\<rparr>"
  have f: "find (\<lambda>s. name s = js ''tools'') [?s] = Some ?s" by simp
  have c: "\<not> existsSync secret_fs (path_join (getGeminiSkillsDir demo_env) (js ''tools''))"
    using secret_absent by (simp add: demo_dest_eq)
  from secret_mkdir secret_copy
  have k: "\<exists>fs1. ensure_base demo_env secret_fs = Inr fs1 \<and>
      cpSync fs1 [js ''plugins'', js ''tools''] demo_dest = Inl EACCES" by simp
  from install_twice [OF secret_catalog f c] secret_mkdir secret_copy
  have h4: "\<exists>fs2. handleInstallSkill demo_env secret_fs (JStr (js ''tools'')) =
      Inr (ErrorInstalling EACCES, fs2)" by (simp add: demo_dest_eq)
  from demo_catalog demo_found demo_dest_eq demo_absent demo_mkdir demo_copy h1 h2
    readonly_catalog readonly_absent readonly_mkdir h3 secret_catalog secret_absent k h4
  show ?thesis by simp
qed

text \<open>
  C1 as stated fails: with the skill in the catalog and the destination absent, the first
  call does not yield \<open>Installed\<close> when \<open>.gemini\<close> in the home directory is a regular
  file; \<open>mkdirSync\<close> throws and line 160 returns the error message.
\<close>

theorem install_blocked_counterexample:
  "findSkills demo_env blocked_fs = Inr [demo_skill] \<and> name demo_skill = js ''tools'' \<and>
   \<not> existsSync blocked_fs (path_join (getGeminiSkillsDir demo_env) (js ''tools'')) \<and>
   handleInstallSkill demo_env blocked_fs (JStr (js ''tools'')) =
     Inr (ErrorCreatingDir ENOTDIR, blocked_fs)"
proof -
  have n: "name demo_skill = js ''tools''" by (simp add: demo_skill_def)
  have a: "\<not> existsSync blocked_fs (path_join (getGeminiSkillsDir demo_env) (js ''tools''))"
    using blocked_absent by (simp add: demo_dest_eq)
  from a have h: "handleInstallSkill demo_env blocked_fs (JStr (js ''tools'')) =
     Inr (ErrorCreatingDir ENOTDIR, blocked_fs)"
    by (simp add: handleInstallSkill_found [OF blocked_catalog demo_found] blocked_mkdir)
  from blocked_catalog n a h show ?thesis by simp
qed

lemma split_no_sep: "d \<notin> set l \<Longrightarrow> str_split d l = [l]"
  by (induction l) auto

lemma path_join_component: "component s \<Longrightarrow> path_join base s = base @ [s]"
  by (simp add: path_join_def component_def split_no_sep)

lemma overlay_new:
  assumes "overlay n dopt = Inr x" and "distinct_names n"
    and "dopt = None \<or> (\<exists>e. dopt = Some (Broken e))"
  shows "x = n"
  using assms overlay_fresh(1) overlay_onto_broken by blast

lemma installed_mirror:
  assumes "distinct_names fs" and "handleInstallSkill ev fs (JStr n) = Inr (Installed d, fs')"
    and "component n"
  shows "\<exists>catalog target. findSkills ev fs = Inr catalog \<and>
           find (\<lambda>s. name s = n) catalog = Some target \<and>
           lookup fs' d = lookup fs (path target)"
proof -
  let ?base = "getGeminiSkillsDir ev"
  from installed_cases [OF assms(2)] obtain catalog and target :: skill and fs1 where
    c: "findSkills ev fs = Inr catalog" and
    t: "find (\<lambda>s. name s = n) catalog = Some target" and
    d: "d = path_join ?base n" and ne: "\<not> existsSync fs d" and
    eb: "ensure_base ev fs = Inr fs1" and
    cp: "cpSync fs1 (path target) d = Inr fs'" by blast
  from ensure_base_cases [OF eb] have f1: "fs1 = fs \<or> mkdir_node fs ?base = Inr fs1" .
  from d assms(3) have d': "d = ?base @ [n]" by (simp add: path_join_component)
  from cpSync_ok [OF cp] obtain n0 fs2 x where
    n0: "lstat fs1 (path target) = Inr n0" and np: "\<not> prefix (path target) d" and
    f2: "fs2 = fs1 \<or> mkdir_node fs1 (dirname d) = Inr fs2" and
    o: "overlay n0 (lookup fs2 d) = Inr x" and p: "put fs2 d x = Inr fs'" by blast
  from d' have nd: "\<not> prefix d ?base" "\<not> prefix d (dirname d)" by (simp_all add: dirname_def)
  from np d' have ns: "\<not> prefix (path target) ?base" by auto
  from f1 nd(1) have l1: "lookup fs1 d = lookup fs d" using mkdir_frame(1) by blast
  from f2 nd(2) have l2: "lookup fs2 d = lookup fs1 d" using mkdir_frame(1) by blast
  from f1 nd(1) have s1: "lstat fs1 d = lstat fs d" using mkdir_frame_lstat(1) by blast
  from cpSync_dest [OF cp] s1 have "lstat fs d = Inl ENOENT \<or> (\<exists>dn. lstat fs d = Inr dn)" by simp
  then have "lookup fs d = None \<or> (\<exists>e. lookup fs d = Some (Broken e))"
  proof
    assume "lstat fs d = Inl ENOENT"
    then show ?thesis by (simp add: lstat_absent(1))
  next
    assume "\<exists>dn. lstat fs d = Inr dn"
    then obtain dn where dn: "lstat fs d = Inr dn" by blast
    with ne obtain e where "dn = Broken e"
      by (cases dn) (simp_all add: existsSync_def statSync_def)
    with lstat_lookup(1) [OF dn] show ?thesis by simp
  qed
  with l1 l2 have fresh: "lookup fs2 d = None \<or> (\<exists>e. lookup fs2 d = Some (Broken e))" by simp
  from f1 ns have s2: "lookup fs1 (path target) = lookup fs (path target)"
    using mkdir_frame(1) by blast
  from f1 assms(1) have "distinct_names fs1" using mkdir_distinct(1) by blast
  from lookup_distinct(1) [OF lstat_lookup(1) [OF n0] this] have "distinct_names n0" .
  from overlay_new [OF o this fresh] have "x = n0" .
  with lookup_put [OF p] lstat_lookup(1) [OF n0] s2 have "lookup fs' d = lookup fs (path target)"
    by simp
  with c t show ?thesis by blast
qed

text \<open>
  C7: in a file system whose directories have no two entries of one name, after an
  install that yields \<open>Installed\<close> every file below the source directory of the skill
  (the first catalog entry of the requested name) stands at the same relative path below
  the destination, with the same content; and when the name is one path component, the
  destination holds exactly the tree the source directory held.
\<close>

theorem install_copies_contents:
  assumes "distinct_names fs" and "handleInstallSkill ev fs (JStr n) = Inr (Installed d, fs')"
  shows "\<exists>catalog target.
           findSkills ev fs = Inr catalog \<and> find (\<lambda>s. name s = n) catalog = Some target \<and>
           d = path_join (getGeminiSkillsDir ev) n \<and>
           (\<forall>q r c. lookup fs (path target @ q) = Some (File r c) \<longrightarrow>
              lookup fs' (d @ q) = Some (File r c)) \<and>
           (component n \<longrightarrow> lookup fs' d = lookup fs (path target))"
proof -
  from installed_cases [OF assms(2)] obtain catalog target fs1 where
    c: "findSkills ev fs = Inr catalog" and
    t: "find (\<lambda>s. name s = n) catalog = Some target" and
    d: "d = path_join (getGeminiSkillsDir ev) n" and
    eb: "ensure_base ev fs = Inr fs1" and
    cp: "cpSync fs1 (path target) d = Inr fs'" by blast
  from ensure_base_cases [OF eb] have f1: "fs1 = fs \<or> mkdir_node fs (getGeminiSkillsDir ev) = Inr fs1" .
  from f1 assms(1) have d1: "distinct_names fs1" using mkdir_distinct(1) by blast
  have files: "lookup fs' (d @ q) = Some (File r c)"
    if l: "lookup fs (path target @ q) = Some (File r c)" for q r c
  proof -
    from f1 l have "lookup fs1 (path target @ q) = Some (File r c)"
      using mkdir_keeps_files(1) by blast
    with cp d1 show ?thesis by (rule cpSync_files)
  qed
  have "lookup fs' d = lookup fs (path target)" if "component n"
  proof -
    from installed_mirror [OF assms that] c t show ?thesis by auto
  qed
  with c t d files show ?thesis by blast
qed

theorem install_copies_contents_witness:
  "distinct_names demo_fs \<and>
   handleInstallSkill demo_env demo_fs (JStr (js ''tools'')) =
     Inr (Installed demo_dest, demo_installed_fs) \<and>
   lookup demo_fs (path demo_skill @ [js ''SKILL.md'']) =
     Some (File True (js ''---\<newline>description: Hello world\<newline>---\<newline>'')) \<and>
   lookup demo_installed_fs (demo_dest @ [js ''SKILL.md'']) =
     Some (File True (js ''---\<newline>description: Hello world\<newline>---\<newline>'')) \<and>
   lookup demo_fs (path demo_skill @ [js ''resource.txt'']) = Some (File True (js ''data'')) \<and>
   lookup demo_installed_fs (demo_dest @ [js ''resource.txt'']) = Some (File True (js ''data'')) \<and>
   component (js ''tools'') \<and>
   lookup demo_fs (path demo_skill) = Some demo_skill_dir \<and>
   lookup demo_installed_fs demo_dest = Some demo_skill_dir"
proof -
  have d: "distinct_names demo_fs"
    by (simp add: demo_fs_def demo_plugins_def demo_skill_dir_def js_def)
  have l1: "lookup demo_fs (path demo_skill @ [js ''SKILL.md'']) =
     Some (File True (js ''---\<newline>description: Hello world\<newline>---\<newline>''))"
    by (simp add: demo_fs_def demo_plugins_def demo_skill_dir_def demo_skill_def js_def)
  have l2: "lookup demo_fs (path demo_skill @ [js ''resource.txt'']) = Some (File True (js ''data''))"
    by (simp add: demo_fs_def demo_plugins_def demo_skill_dir_def demo_skill_def js_def)
  have l3: "lookup demo_fs (path demo_skill) = Some demo_skill_dir"
    by (simp add: demo_fs_def demo_plugins_def demo_skill_def js_def)
  have cn: "component (js ''tools'')" by (simp add: component_def js_def)
  have f: "name demo_skill = js ''tools''"
    by (simp add: demo_skill_def)
  from install_copies_contents [OF d demo_install]
  have k: "(\<forall>q r c. lookup demo_fs (path demo_skill @ q) = Some (File r c) \<longrightarrow>
            lookup demo_installed_fs (demo_dest @ q) = Some (File r c)) \<and>
           (component (js ''tools'') \<longrightarrow> lookup demo_installed_fs demo_dest = lookup demo_fs (path demo_skill))"
    by (simp add: demo_catalog f)
  from k l1 have r1: "lookup demo_installed_fs (demo_dest @ [js ''SKILL.md'']) =
     Some (File True (js ''---\<newline>description: Hello world\<newline>---\<newline>''))" by blast
  from k l2 have r2: "lookup demo_installed_fs (demo_dest @ [js ''resource.txt'']) =
     Some (File True (js ''data''))" by blast
  from k cn l3 have r3: "lookup demo_installed_fs demo_dest = Some demo_skill_dir" by simp
  from d demo_install l1 r1 l2 r2 cn l3 r3 show ?thesis by simp
qed

section \<open>The first match\<close>

lemma first_match_None: "first_match r st = None \<longleftrightarrow> matches r st = []"
  by (simp add: first_match_def split: list.splits)

lemma first_match_in: "first_match r st = Some x \<Longrightarrow> x \<in> set (matches r st)"
  by (auto simp: first_match_def split: list.splits)

lemma first_Seq:
  "first_match a st = Some x \<Longrightarrow> first_match b x = Some y \<Longrightarrow> first_match (Seq a b) st = Some y"
  by (auto simp: first_match_def split: list.splits)

lemma first_Lit:
  "prefix l (rest st) \<Longrightarrow>
   first_match (Lit l) st =
     Some (st\<lparr>prev := (if l = [] then prev st else Some (last l)), rest := drop (length l) (rest st)\<rparr>)"
  by (simp add: first_match_def)

lemma first_Bol: "line_start (prev st) \<Longrightarrow> first_match (Bol True) st = Some st"
  by (auto simp: first_match_def line_start_def split: option.splits)

lemma first_Eol:
  "rest st = [] \<or> is_line_terminator (hd (rest st)) \<Longrightarrow> first_match (Eol True) st = Some st"
  by (cases "rest st") (auto simp: first_match_def)

lemma first_Opt_skip: "matches r st = [] \<Longrightarrow> first_match (Opt r) st = Some st"
  by (simp add: first_match_def)

lemma first_Grp:
  "first_match r st = Some x \<Longrightarrow>
   first_match (Grp n r) st =
     Some (x\<lparr>caps := (caps x)(n \<mapsto> take (length (rest st) - length (rest x)) (rest st))\<rparr>)"
  by (auto simp: first_match_def split: list.splits)

lemma last_runs: "snd (last (runs C p s)) = dropWhile C s"
  by (induction s arbitrary: p) (simp_all add: runs_nonempty)

lemma first_of_rev:
  "xs \<noteq> [] \<Longrightarrow> (case map f (rev xs) of [] \<Rightarrow> None | x # ys \<Rightarrow> Some x) = Some (f (last xs))"
  by (cases xs rule: rev_cases) simp_all

lemma first_StarG:
  "\<exists>x. first_match (StarG C) st = Some x \<and> rest x = dropWhile C (rest st) \<and> caps x = caps st"
proof -
  let ?rs = "runs C (prev st) (rest st)"
  have ne: "?rs \<noteq> []" by (rule runs_nonempty)
  then have "first_match (StarG C) st = Some (move st (last ?rs))"
    by (simp add: first_match_def first_of_rev)
  moreover have "rest (move st (last ?rs)) = dropWhile C (rest st)"
    by (simp add: move_def last_runs)
  moreover have "caps (move st (last ?rs)) = caps st" by (simp add: move_def)
  ultimately show ?thesis by blast
qed

lemma first_PlusG:
  assumes "rest st = c # cs" and "C c"
  shows "\<exists>x. first_match (PlusG C) st = Some x \<and> rest x = dropWhile C (rest st) \<and> caps x = caps st"
proof -
  let ?rs = "runs C (Some c) cs"
  from assms have t: "tl (runs C (prev st) (rest st)) = ?rs" by simp
  have ne: "?rs \<noteq> []" by (rule runs_nonempty)
  with t have "first_match (PlusG C) st = Some (move st (last ?rs))"
    by (simp add: first_match_def first_of_rev)
  moreover have "rest (move st (last ?rs)) = dropWhile C (rest st)"
    using assms by (simp add: move_def last_runs)
  moreover have "caps (move st (last ?rs)) = caps st" by (simp add: move_def)
  ultimately show ?thesis by blast
qed

lemma exec_from_first:
  "first_match r \<lparr>prev = p, rest = s, caps = (\<lambda>n. None)\<rparr> = Some x \<Longrightarrow> exec_from r p s = Some x"
  by (cases s) (auto simp: first_match_def split: list.splits)

lemma caps_kept:
  "x \<in> set (matches r st) \<Longrightarrow> n \<notin> groups r \<Longrightarrow> caps x n = caps st n"
proof (induction r arbitrary: st x)
  case (Bol ml)
  then show ?case by (auto split: option.splits if_splits)
next
  case (Eol ml)
  then show ?case by (auto split: list.splits if_splits)
next
  case (Lit l)
  then show ?case by (auto split: if_splits)
next
  case (StarG C)
  then show ?case by (auto simp: move_def)
next
  case (StarL C)
  then show ?case by (auto simp: move_def)
next
  case (PlusG C)
  then show ?case by (auto simp: move_def)
next
  case (Opt r)
  then show ?case by auto
next
  case (Grp m r)
  then show ?case by auto
next
  case (Seq a b)
  from Seq.prems(1) obtain s1 where "s1 \<in> set (matches a st)" "x \<in> set (matches b s1)" by auto
  with Seq.IH Seq.prems(2) show ?case by fastforce
qed

lemma Seq_member:
  "s' \<in> set (matches a s) \<Longrightarrow> x \<in> set (matches b s') \<Longrightarrow> x \<in> set (matches (Seq a b) s)"
  by auto

lemma lt_is_space: "is_line_terminator c \<Longrightarrow> is_space c"
  by (auto simp: is_line_terminator_def is_space_def)

lemma take_takeWhile: "take (length xs - length (dropWhile P xs)) xs = takeWhile P xs"
proof -
  have "length xs = length (takeWhile P xs) + length (dropWhile P xs)"
    by (metis length_append takeWhile_dropWhile_id)
  then have "length xs - length (dropWhile P xs) = length (takeWhile P xs)" by simp
  then show ?thesis by (simp add: takeWhile_eq_take [symmetric])
qed

text \<open>The tail \<open>(.+)$\<close> of the description pattern, from a position where a \<open>.\<close> can be read.\<close>

lemma first_value:
  assumes "rest st = c # cs" and "dot c"
  shows "\<exists>x. first_match (Seq (Grp 2 (PlusG dot)) (Eol True)) st = Some x \<and>
           caps x = (caps st)(2 \<mapsto> takeWhile dot (rest st))"
proof -
  from first_PlusG [where C = dot, OF assms] obtain y where
    y: "first_match (PlusG dot) st = Some y" "rest y = dropWhile dot (rest st)" "caps y = caps st"
    by blast
  let ?z = "y\<lparr>caps := (caps y)(2 \<mapsto> take (length (rest st) - length (rest y)) (rest st))\<rparr>"
  from first_Grp [OF y(1)] have g: "first_match (Grp 2 (PlusG dot)) st = Some ?z" .
  have "rest ?z = [] \<or> is_line_terminator (hd (rest ?z))"
    using y(2) hd_dropWhile [of dot "rest st"] by (auto simp: dot_def)
  from first_Eol [OF this] have "first_match (Eol True) ?z = Some ?z" .
  from first_Seq [OF g this] have "first_match (Seq (Grp 2 (PlusG dot)) (Eol True)) st = Some ?z" .
  moreover have "caps ?z = (caps st)(2 \<mapsto> takeWhile dot (rest st))"
    using y(2,3) by (simp add: take_takeWhile)
  ultimately show ?thesis by blast
qed

text \<open>The tail \<open>\s*(.+)$\<close> matches wherever a code unit other than a line terminator follows.\<close>

lemma tail_matches:
  assumes "\<exists>c\<in>set (rest st). dot c"
  shows "matches (Seq (StarG is_space) (Seq (Grp 2 (PlusG dot)) (Eol True))) st \<noteq> []"
proof -
  let ?T = "rest st"
  let ?u = "takeWhile is_line_terminator ?T"
  let ?T1 = "dropWhile is_line_terminator ?T"
  from assms have "?T1 \<noteq> []" by (auto simp: dot_def dropWhile_eq_Nil_conv)
  then obtain c cs where T1: "?T1 = c # cs" by (cases ?T1) auto
  with hd_dropWhile [of is_line_terminator ?T] have dc: "dot c" by (auto simp: dot_def)
  have u: "\<forall>c\<in>set ?u. is_space c" using lt_is_space by (auto dest: set_takeWhileD)
  let ?q = "if ?u = [] then prev st else Some (last ?u)"
  have "?T = ?u @ ?T1" by simp
  with u have "(?q, ?T1) \<in> set (runs is_space (prev st) ?T)" unfolding in_runs by blast
  then have m1: "move st (?q, ?T1) \<in> set (matches (StarG is_space) st)" by simp
  have "rest (move st (?q, ?T1)) = c # cs" using T1 by (simp add: move_def)
  from first_value [OF this dc] obtain x where
    "first_match (Seq (Grp 2 (PlusG dot)) (Eol True)) (move st (?q, ?T1)) = Some x" by blast
  from Seq_member [OF m1 first_match_in [OF this]]
  have "x \<in> set (matches (Seq (StarG is_space) (Seq (Grp 2 (PlusG dot)) (Eol True))) st)" .
  then show ?thesis by (cases "matches (Seq (StarG is_space) (Seq (Grp 2 (PlusG dot)) (Eol True))) st") simp_all
qed

lemma first_Opt_taken:
  "matches a st = [g] \<Longrightarrow> matches b g = x # xs \<Longrightarrow> first_match (Seq (Opt a) b) st = Some x"
  by (simp add: first_match_def)

lemma not_space_dot: "\<not> is_space c \<Longrightarrow> dot c"
  using lt_is_space by (auto simp: dot_def)

text \<open>The description pattern at a \<open>description:\<close> line whose value does not begin with \<open>>\<close>.\<close>

lemma inline_at_key:
  assumes ls: "line_start p" and w: "dropWhile is_space v = c # cs" and c: "c \<noteq> 62"
    and R: "R = [] \<or> hd R = 10"
  shows "\<exists>d. exec_from description_re p (js ''description:'' @ v @ R) = Some d \<and>
           caps d 1 = None \<and> caps d 2 = Some (takeWhile dot (c # cs))"
proof -
  let ?key = "js ''description:''"
  let ?st0 = "\<lparr>prev = p, rest = ?key @ v @ R, caps = (\<lambda>n. None)\<rparr>"
  let ?s1 = "?st0\<lparr>prev := (if ?key = [] then prev ?st0 else Some (last ?key)),
                 rest := drop (length ?key) (rest ?st0)\<rparr>"
  let ?tail = "Seq (Grp 2 (PlusG dot)) (Eol True)"
  from w hd_dropWhile [of is_space v] have nsp: "\<not> is_space c" by auto
  from w have "c \<in> set (dropWhile is_space v)" by simp
  then have cv: "c \<in> set v" by (rule set_dropWhileD)
  have b: "first_match (Bol True) ?st0 = Some ?st0" using ls by (simp add: first_Bol)
  have l: "first_match (Lit ?key) ?st0 = Some ?s1" by (rule first_Lit) simp
  from first_StarG [of is_space ?s1] obtain s2 where
    s2: "first_match (StarG is_space) ?s1 = Some s2" "rest s2 = dropWhile is_space (rest ?s1)"
      "caps s2 = caps ?s1" by blast
  from s2(2) cv nsp w have r2: "rest s2 = c # cs @ R" by (simp add: dropWhile_append1)
  from r2 c have "matches (Grp 1 (Lit (js ''>''))) s2 = []" by (simp add: js_def)
  then have o: "first_match (Opt (Grp 1 (Lit (js ''>'')))) s2 = Some s2" by (rule first_Opt_skip)
  from first_StarG [of is_space s2] obtain s3 where
    s3: "first_match (StarG is_space) s2 = Some s3" "rest s3 = dropWhile is_space (rest s2)"
      "caps s3 = caps s2" by blast
  from s3(2) r2 nsp have r3: "rest s3 = c # (cs @ R)" by simp
  from first_value [OF r3 not_space_dot [OF nsp]] obtain x where
    x: "first_match ?tail s3 = Some x" "caps x = (caps s3)(2 \<mapsto> takeWhile dot (rest s3))" by blast
  note a5 = first_Seq [OF s3(1) x(1)]
  note a4 = first_Seq [OF o a5]
  note a3 = first_Seq [OF s2(1) a4]
  note a2 = first_Seq [OF l a3]
  note a1 = first_Seq [OF b a2]
  from a1 have "first_match description_re ?st0 = Some x" by (simp only: description_re_def)
  then have e: "exec_from description_re p (?key @ v @ R) = Some x" by (rule exec_from_first)
  have tw: "takeWhile dot (c # cs @ R) = takeWhile dot (c # cs)"
  proof (cases "\<forall>a\<in>set (c # cs). dot a")
    case True
    from R have "takeWhile dot R = []"
      by (cases R) (auto simp: dot_def is_line_terminator_def)
    with True have "takeWhile dot ((c # cs) @ R) = c # cs"
      by (simp only: takeWhile_append2 [OF True [rule_format]]) simp
    moreover from True have "takeWhile dot (c # cs) = c # cs" by (simp only: takeWhile_eq_all_conv)
    ultimately show ?thesis by simp
  next
    case False
    then obtain a where "a \<in> set (c # cs)" "\<not> dot a" by blast
    then have "takeWhile dot ((c # cs) @ R) = takeWhile dot (c # cs)" by (rule takeWhile_append1)
    then show ?thesis by simp
  qed
  from x(2) s3(3) s2(3) have "caps x 1 = None" by simp
  moreover from x(2) r3 tw have "caps x 2 = Some (takeWhile dot (c # cs))" by simp
  ultimately show ?thesis using e by blast
qed

text \<open>The description pattern at a \<open>description:\<close> line whose value begins with \<open>>\<close>.\<close>

lemma folded_at_key:
  assumes ls: "line_start p" and sp: "\<forall>c\<in>set sp. is_space c" and T: "\<exists>c\<in>set T. dot c"
  shows "\<exists>d. exec_from description_re p (js ''description:'' @ sp @ 62 # T) = Some d \<and>
           caps d 1 = Some (js ''>'')"
proof -
  let ?key = "js ''description:''"
  let ?st0 = "\<lparr>prev = p, rest = ?key @ sp @ 62 # T, caps = (\<lambda>n. None)\<rparr>"
  let ?s1 = "?st0\<lparr>prev := (if ?key = [] then prev ?st0 else Some (last ?key)),
                 rest := drop (length ?key) (rest ?st0)\<rparr>"
  let ?tail = "Seq (StarG is_space) (Seq (Grp 2 (PlusG dot)) (Eol True))"
  have b: "first_match (Bol True) ?st0 = Some ?st0" using ls by (simp add: first_Bol)
  have l: "first_match (Lit ?key) ?st0 = Some ?s1" by (rule first_Lit) simp
  from first_StarG [of is_space ?s1] obtain s2 where
    s2: "first_match (StarG is_space) ?s1 = Some s2" "rest s2 = dropWhile is_space (rest ?s1)"
      "caps s2 = caps ?s1" by blast
  have "\<not> is_space 62" by (simp add: is_space_def)
  with s2(2) sp have r2: "rest s2 = 62 # T" by (simp add: dropWhile_append2)
  let ?g = "s2\<lparr>prev := Some 62, rest := T, caps := (caps s2)(1 \<mapsto> js ''>'')\<rparr>"
  from r2 have og: "matches (Grp 1 (Lit (js ''>''))) s2 = [?g]" by (simp add: js_def)
  from T have "matches ?tail ?g \<noteq> []" by (intro tail_matches) simp
  then obtain x xs where xs: "matches ?tail ?g = x # xs" by (cases "matches ?tail ?g") auto
  from first_Opt_taken [OF og xs]
  have a4: "first_match (Seq (Opt (Grp 1 (Lit (js ''>'')))) ?tail) s2 = Some x" .
  note a3 = first_Seq [OF s2(1) a4]
  note a2 = first_Seq [OF l a3]
  note a1 = first_Seq [OF b a2]
  from a1 have "first_match description_re ?st0 = Some x" by (simp only: description_re_def)
  then have e: "exec_from description_re p (?key @ sp @ 62 # T) = Some x" by (rule exec_from_first)
  from xs have "x \<in> set (matches ?tail ?g)" by simp
  from caps_kept [OF this, of 1] have "caps x 1 = Some (js ''>'')" by simp
  with e show ?thesis by blast
qed

section \<open>The lines of a header\<close>

lemma join_Cons: "arr_join sep (x # xs) = x @ concat (map ((@) sep) xs)"
  by (induction xs arbitrary: x) simp_all

lemma join_lines:
  "arr_join [10] (pre @ kl # post) =
     concat (map (\<lambda>l. l @ [10]) pre) @ kl @ concat (map ((#) 10) post)"
proof (induction pre)
  case Nil
  have "map ((@) [10]) post = map ((#) 10) post" by simp
  then show ?case by (simp add: join_Cons del: map_eq_conv)
next
  case (Cons a pre)
  have "arr_join [10] ((a # pre) @ kl # post) = a @ [10] @ arr_join [10] (pre @ kl # post)"
    by (cases pre) simp_all
  with Cons show ?case by simp
qed

lemma split_line: "d \<notin> set l \<Longrightarrow> str_split d (l @ d # s) = l # str_split d s"
  by (induction l) auto

lemma split_join:
  "\<forall>l\<in>set (x # xs). 10 \<notin> set l \<Longrightarrow> str_split 10 (arr_join [10] (x # xs)) = x # xs"
proof (induction xs arbitrary: x)
  case Nil
  then show ?case by (simp add: split_no_sep)
next
  case (Cons y ys)
  then have "str_split 10 (arr_join [10] (y # ys)) = y # ys" by simp
  moreover have "arr_join [10] (x # y # ys) = x @ 10 # arr_join [10] (y # ys)" by simp
  ultimately show ?case using Cons.prems by (simp only: split_line) (simp add: split_line)
qed

lemma prefix_key_line:
  assumes "prefix (js ''description:'') (l @ 10 # b)"
  shows "prefix (js ''description:'') l"
proof -
  from assms consider "prefix (js ''description:'') l"
    | us where "js ''description:'' = l @ us" "prefix us (10 # b)"
    unfolding prefix_append by blast
  then show ?thesis
  proof cases
    case 1
    then show ?thesis .
  next
    case 2
    show ?thesis
    proof (cases us)
      case Nil
      with 2 show ?thesis by simp
    next
      case (Cons a us')
      with 2(2) have "a = 10" by simp
      with 2(1) Cons have "10 \<in> set (js ''description:'')" by simp
      then show ?thesis by (simp add: js_def)
    qed
  qed
qed

lemma skip_line:
  "\<not> has_key_from p l \<Longrightarrow>
   exec_from description_re p (l @ 10 # b) = exec_from description_re (Some 10) b"
proof (induction l arbitrary: p)
  case Nil
  have "\<not> (line_start p \<and> prefix (js ''description:'') (10 # b))" by (simp add: js_def)
  from description_re_no_key [OF this] show ?case by simp
next
  case (Cons c cs)
  from Cons.prems have a: "\<not> (line_start p \<and> prefix (js ''description:'') (c # cs))"
    and b: "\<not> has_key_from (Some c) cs" by simp_all
  from a prefix_key_line [of "c # cs" b]
  have "\<not> (line_start p \<and> prefix (js ''description:'') (c # cs @ 10 # b))" by auto
  from description_re_no_key [OF this] Cons.IH [OF b] show ?case by simp
qed

lemma has_key_from_start: "line_start p \<Longrightarrow> has_key_from p l = has_description_key l"
  by (cases l) (simp_all add: has_description_key_def line_start_def)

lemma skip_lines:
  "line_start p \<Longrightarrow> \<forall>l\<in>set pre. \<not> has_description_key l \<Longrightarrow>
   \<exists>p'. line_start p' \<and>
     exec_from description_re p (concat (map (\<lambda>l. l @ [10]) pre) @ b) =
     exec_from description_re p' b"
proof (induction pre arbitrary: p)
  case Nil
  then show ?case by auto
next
  case (Cons l pre)
  from Cons.prems have "\<not> has_key_from p l" by (simp add: has_key_from_start)
  then have "exec_from description_re p (l @ 10 # concat (map (\<lambda>l. l @ [10]) pre) @ b) =
             exec_from description_re (Some 10) (concat (map (\<lambda>l. l @ [10]) pre) @ b)"
    by (rule skip_line)
  moreover have "line_start (Some 10)" by (simp add: line_start_def is_line_terminator_def)
  from Cons.IH [OF this] Cons.prems(2) obtain p' where "line_start p'"
    "exec_from description_re (Some 10) (concat (map (\<lambda>l. l @ [10]) pre) @ b) =
     exec_from description_re p' b" by auto
  ultimately show ?case by auto
qed

lemma str_match_anchored_first:
  "str_match (Seq (Bol False) r) s = first_match r \<lparr>prev = None, rest = s, caps = (\<lambda>n. None)\<rparr>"
  by (simp only: str_match_anchored first_match_def)

lemma no_key_not_folded_line:
  assumes "\<not> has_description_key l"
  shows "str_match folded_line_re l = None"
proof -
  from assms have "\<not> prefix (js ''description:'') l"
    by (cases l) (simp_all add: has_description_key_def line_start_def js_def)
  then have "matches (Seq (Lit (js ''description:'')) (Seq (StarG is_space) (Lit (js ''>''))))
               \<lparr>prev = None, rest = l, caps = (\<lambda>n. None)\<rparr> = []"
    by simp
  then show ?thesis
    by (simp only: folded_line_re_def str_match_anchored_first first_match_None)
qed

lemma key_line_folded:
  assumes "\<forall>c\<in>set sp. is_space c"
  shows "str_match folded_line_re (js ''description:'' @ sp @ 62 # t) \<noteq> None"
proof -
  let ?key = "js ''description:''"
  let ?st0 = "\<lparr>prev = None, rest = ?key @ sp @ 62 # t, caps = (\<lambda>n. None)\<rparr>"
  let ?s1 = "?st0\<lparr>prev := (if ?key = [] then prev ?st0 else Some (last ?key)),
                 rest := drop (length ?key) (rest ?st0)\<rparr>"
  have l: "first_match (Lit ?key) ?st0 = Some ?s1" by (rule first_Lit) simp
  from first_StarG [of is_space ?s1] obtain s2 where
    s2: "first_match (StarG is_space) ?s1 = Some s2" "rest s2 = dropWhile is_space (rest ?s1)"
    by blast
  have "\<not> is_space 62" by (simp add: is_space_def)
  with s2(2) assms have r2: "rest s2 = 62 # t" by (simp add: dropWhile_append2)
  then have "prefix (js ''>'') (rest s2)" by (simp add: js_def)
  note g = first_Lit [OF this]
  note a2 = first_Seq [OF s2(1) g]
  note a1 = first_Seq [OF l a2]
  then show ?thesis by (simp only: folded_line_re_def str_match_anchored_first) simp
qed

lemma folded_loop_before:
  "\<forall>l\<in>set pre. str_match folded_line_re l = None \<Longrightarrow>
   folded_loop (pre @ ls) False acc = folded_loop ls False acc"
  by (induction pre) simp_all

lemma folded_loop_capturing:
  "folded_loop ls True acc =
     acc @ map str_trim (takeWhile (prefix (js ''  ''))
             (filter (\<lambda>l. str_match folded_line_re l = None \<and> str_trim l \<noteq> []) ls))"
  by (induction ls arbitrary: acc) simp_all

lemma describe_folded:
  assumes lines: "\<forall>l\<in>set (pre @ kl # post). 10 \<notin> set l"
    and nokey: "\<forall>l\<in>set pre. \<not> has_description_key l"
    and kl: "kl = js ''description:'' @ sp @ 62 # t"
    and sp: "\<forall>c\<in>set sp. is_space c"
    and more: "(\<exists>c\<in>set t. dot c) \<or> (\<exists>l\<in>set post. \<exists>c\<in>set l. dot c)"
  shows "describe_header (arr_join [10] (pre @ kl # post)) =
           arr_join (js '' '') (map str_trim (takeWhile (prefix (js ''  ''))
             (filter (\<lambda>l. str_match folded_line_re l = None \<and> str_trim l \<noteq> []) post)))"
proof -
  let ?y = "arr_join [10] (pre @ kl # post)"
  let ?A = "concat (map (\<lambda>l. l @ [10]) pre)"
  let ?R = "concat (map ((#) 10) post)"
  have y: "?y = ?A @ kl @ ?R" by (rule join_lines)
  have ls: "line_start None" by (simp add: line_start_def)
  from skip_lines [OF ls nokey, of "kl @ ?R"] obtain p' where p': "line_start p'"
    and e1: "exec_from description_re None (?A @ kl @ ?R) = exec_from description_re p' (kl @ ?R)"
    by blast
  from more have T: "\<exists>c\<in>set (t @ ?R). dot c" by auto
  from folded_at_key [OF p' sp T] kl obtain d where
    d: "exec_from description_re p' (kl @ ?R) = Some d" "caps d 1 = Some (js ''>'')" by auto
  from y e1 d(1) have m: "str_match description_re ?y = Some d" by (simp add: str_match_def)
  obtain x xs where xs: "pre @ kl # post = x # xs" by (cases pre) auto
  with lines have "str_split 10 (arr_join [10] (x # xs)) = x # xs" by (intro split_join) simp
  with xs have sl: "str_split 10 ?y = pre @ kl # post" by simp
  from nokey have nf: "\<forall>l\<in>set pre. str_match folded_line_re l = None"
    using no_key_not_folded_line by blast
  from key_line_folded [OF sp, of t] kl have kf: "str_match folded_line_re kl \<noteq> None" by simp
  have "folded_loop (pre @ kl # post) False [] = folded_loop (kl # post) False []"
    using nf by (rule folded_loop_before)
  also have "\<dots> = folded_loop post True []" using kf by simp
  finally have fl: "folded_loop (pre @ kl # post) False [] =
      map str_trim (takeWhile (prefix (js ''  ''))
        (filter (\<lambda>l. str_match folded_line_re l = None \<and> str_trim l \<noteq> []) post))"
    by (simp add: folded_loop_capturing)
  from m d(2) have "describe_header ?y = arr_join (js '' '') (folded_loop (str_split 10 ?y) False [])"
    by (simp add: describe_header_def)
  with sl fl show ?thesis by simp
qed

lemma describe_inline:
  assumes nokey: "\<forall>l\<in>set pre. \<not> has_description_key l"
    and kl: "kl = js ''description:'' @ v"
    and w: "dropWhile is_space v = c # cs" and c: "c \<noteq> 62"
  shows "describe_header (arr_join [10] (pre @ kl # post)) = str_trim (takeWhile dot (c # cs))"
proof -
  let ?y = "arr_join [10] (pre @ kl # post)"
  let ?A = "concat (map (\<lambda>l. l @ [10]) pre)"
  let ?R = "concat (map ((#) 10) post)"
  have y: "?y = ?A @ kl @ ?R" by (rule join_lines)
  have ls: "line_start None" by (simp add: line_start_def)
  from skip_lines [OF ls nokey, of "kl @ ?R"] obtain p' where p': "line_start p'"
    and e1: "exec_from description_re None (?A @ kl @ ?R) = exec_from description_re p' (kl @ ?R)"
    by blast
  have R: "?R = [] \<or> hd ?R = 10" by (cases post) simp_all
  from inline_at_key [OF p' w c R] kl obtain d where
    d: "exec_from description_re p' (kl @ ?R) = Some d" "caps d 1 = None"
      "caps d 2 = Some (takeWhile dot (c # cs))" by auto
  from y e1 d(1) have m: "str_match description_re ?y = Some d" by (simp add: str_match_def)
  with d(2,3) show ?thesis by (simp add: describe_header_def)
qed

lemma trim_dropWhile: "str_trim (dropWhile is_space v) = str_trim v"
  by (simp add: str_trim_def)




section \<open>Trimming\<close>

lemma rev_dropWhile_parts: "w = rev (dropWhile P (rev w)) @ rev (takeWhile P (rev w))"
proof -
  have "rev (takeWhile P (rev w) @ dropWhile P (rev w)) = rev (rev w)"
    by (simp only: takeWhile_dropWhile_id)
  then show ?thesis by (simp only: rev_append rev_rev_ident)
qed

lemma dropWhile_trim:
  "dropWhile is_space v = str_trim v @ rev (takeWhile is_space (rev (dropWhile is_space v)))"
  unfolding str_trim_def by (rule rev_dropWhile_parts)

lemma trim_parts:
  "\<exists>a b. v = a @ str_trim v @ b \<and> (\<forall>c\<in>set a. is_space c) \<and> (\<forall>c\<in>set b. is_space c)"
proof -
  let ?a = "takeWhile is_space v"
  let ?b = "rev (takeWhile is_space (rev (dropWhile is_space v)))"
  have "v = ?a @ dropWhile is_space v" by simp
  with dropWhile_trim [of v] have "v = ?a @ str_trim v @ ?b" by simp
  moreover have "\<forall>c\<in>set ?a. is_space c" by (auto dest: set_takeWhileD)
  moreover have "\<forall>c\<in>set ?b. is_space c" by (auto dest: set_takeWhileD)
  ultimately show ?thesis by blast
qed

lemma trim_ends:
  assumes "str_trim v \<noteq> []"
  shows "\<not> is_space (hd (str_trim v)) \<and> \<not> is_space (last (str_trim v))"
proof -
  let ?w = "dropWhile is_space v"
  let ?u = "dropWhile is_space (rev ?w)"
  from assms have u: "?u \<noteq> []" by (simp add: str_trim_def)
  then have "\<not> is_space (hd ?u)" by (rule hd_dropWhile)
  with u have l: "\<not> is_space (last (str_trim v))" by (simp add: str_trim_def last_rev)
  have "?w = [] \<Longrightarrow> ?u = []" by (simp only: rev.simps dropWhile.simps)
  with u have w: "?w \<noteq> []" by blast
  then have hw: "\<not> is_space (hd ?w)" by (rule hd_dropWhile)
  from dropWhile_trim [of v] assms have "hd ?w = hd (str_trim v)"
    by (metis hd_append2)
  with hw l show ?thesis by simp
qed

lemma trim_unique:
  assumes "\<forall>c\<in>set a. is_space c" and "\<forall>c\<in>set b. is_space c"
    and "t \<noteq> []" and "\<not> is_space (hd t)" and "\<not> is_space (last t)"
  shows "str_trim (a @ t @ b) = t"
proof -
  from assms(3) obtain h t' where t: "t = h # t'" by (cases t) auto
  with assms(4) have d1: "dropWhile is_space (t @ b) = t @ b" by simp
  have "dropWhile is_space (a @ t @ b) = dropWhile is_space (t @ b)"
    using assms(1) by (intro dropWhile_append2) simp
  with d1 have d: "dropWhile is_space (a @ t @ b) = t @ b" by simp
  from assms(3) obtain t0 z where tz: "t = t0 @ [z]" by (cases t rule: rev_cases) auto
  with assms(5) have r1: "dropWhile is_space (rev t) = rev t" by simp
  have "dropWhile is_space (rev b @ rev t) = dropWhile is_space (rev t)"
    using assms(2) by (intro dropWhile_append2) simp
  with r1 have "dropWhile is_space (rev (t @ b)) = rev t" by simp
  with d show ?thesis by (simp only: str_trim_def rev_rev_ident)
qed

lemma trim_Nil_iff: "str_trim v = [] \<longleftrightarrow> (\<forall>c\<in>set v. is_space c)"
proof
  assume "str_trim v = []"
  with trim_parts [of v] show "\<forall>c\<in>set v. is_space c" by (metis append_Nil set_append UnE)
next
  assume "\<forall>c\<in>set v. is_space c"
  then have "dropWhile is_space v = []" by simp
  then show "str_trim v = []" by (simp only: str_trim_def rev.simps dropWhile.simps)
qed

lemma trim_spaces_after:
  assumes "\<forall>c\<in>set s. is_space c"
  shows "str_trim (str_trim v @ s) = str_trim v"
proof (cases "str_trim v = []")
  case True
  from assms have "str_trim ([] @ s) = []" unfolding trim_Nil_iff by simp
  with True show ?thesis by simp
next
  case False
  from trim_ends [OF False] trim_unique [of "[]" s "str_trim v"] assms False
  show ?thesis by simp
qed

section \<open>Splitting into lines\<close>

lemma split_nonempty: "str_split d s \<noteq> []"
  by (induction s) (auto split: list.splits)

lemma join_split: "arr_join [d] (str_split d s) = s"
proof (induction s)
  case Nil
  then show ?case by simp
next
  case (Cons c cs)
  obtain l ls where l: "str_split d cs = l # ls"
    using split_nonempty [of d cs] by (cases "str_split d cs") auto
  with Cons have j: "arr_join [d] (l # ls) = cs" by simp
  show ?case
  proof (cases "c = d")
    case True
    with l j show ?thesis by simp
  next
    case False
    have "arr_join [d] ((c # l) # ls) = c # arr_join [d] (l # ls)" by (cases ls) simp_all
    with False l j show ?thesis by simp
  qed
qed

lemma split_no_sep_in: "l \<in> set (str_split d s) \<Longrightarrow> d \<notin> set l"
proof (induction s arbitrary: l)
  case Nil
  then show ?case by simp
next
  case (Cons c cs)
  obtain l0 ls where l0: "str_split d cs = l0 # ls"
    using split_nonempty [of d cs] by (cases "str_split d cs") auto
  show ?case
  proof (cases "c = d")
    case True
    with Cons show ?thesis by auto
  next
    case False
    with Cons.prems l0 have "l = c # l0 \<or> l \<in> set ls" by simp
    with Cons.IH [of l0] Cons.IH [of l] l0 False show ?thesis by auto
  qed
qed

section \<open>The continuation lines\<close>

lemma not_key_not_folded:
  assumes "\<not> prefix (js ''description:'') l"
  shows "str_match folded_line_re l = None"
proof -
  from assms have "matches (Seq (Lit (js ''description:'')) (Seq (StarG is_space) (Lit (js ''>''))))
               \<lparr>prev = None, rest = l, caps = (\<lambda>n. None)\<rparr> = []"
    by simp
  then show ?thesis
    by (simp only: folded_line_re_def str_match_anchored_first first_match_None)
qed

lemma blank_no_key: "blank l \<Longrightarrow> \<not> prefix (js ''description:'') l"
proof
  assume b: "blank l" and p: "prefix (js ''description:'') l"
  from p obtain z where "l = js ''description:'' @ z" by (auto simp: prefix_def)
  then have "100 \<in> set l" by (simp add: js_def)
  with b have "is_space 100" by (simp add: blank_def trim_Nil_iff)
  then show False by (simp add: is_space_def)
qed

lemma indented_no_key: "indented l \<Longrightarrow> \<not> prefix (js ''description:'') l"
  by (auto simp: indented_def prefix_def js_def)

lemma folded_filter:
  assumes "case stop_line post of None \<Rightarrow> True | Some l \<Rightarrow> str_match folded_line_re l = None"
  shows "takeWhile (prefix (js ''  ''))
           (filter (\<lambda>l. str_match folded_line_re l = None \<and> str_trim l \<noteq> []) post) =
         filter (\<lambda>l. \<not> blank l) (takeWhile (\<lambda>l. blank l \<or> indented l) post)"
  using assms
proof (induction post)
  case Nil
  then show ?case by simp
next
  case (Cons l ls)
  show ?case
  proof (cases "blank l \<or> indented l")
    case True
    then have nf: "str_match folded_line_re l = None"
      using blank_no_key indented_no_key not_key_not_folded by blast
    from True Cons.prems have "case stop_line ls of None \<Rightarrow> True
        | Some l \<Rightarrow> str_match folded_line_re l = None" by (simp add: stop_line_def)
    from Cons.IH [OF this] True nf show ?thesis by (auto simp: blank_def indented_def)
  next
    case False
    with Cons.prems have "str_match folded_line_re l = None" by (simp add: stop_line_def)
    with False show ?thesis by (simp add: blank_def indented_def)
  qed
qed

section \<open>A blank value\<close>

lemma caps_within:
  assumes "x \<in> set (matches r st)" and "\<forall>c\<in>set (rest st). P c"
    and "\<forall>n w. caps st n = Some w \<longrightarrow> (\<forall>c\<in>set w. P c)"
  shows "\<forall>n w. caps x n = Some w \<longrightarrow> (\<forall>c\<in>set w. P c)"
  using assms
proof (induction r arbitrary: st x)
  case (Bol ml)
  then show ?case by (auto split: option.splits if_splits)
next
  case (Eol ml)
  then show ?case by (auto split: list.splits if_splits)
next
  case (Lit l)
  then show ?case by (auto split: if_splits)
next
  case (StarG C)
  then show ?case by (auto simp: move_def)
next
  case (StarL C)
  then show ?case by (auto simp: move_def)
next
  case (PlusG C)
  then show ?case by (auto simp: move_def)
next
  case (Opt r)
  then show ?case by auto
next
  case (Grp m r)
  from Grp.prems(1) obtain s1 where s1: "s1 \<in> set (matches r st)"
    and x: "x = s1\<lparr>caps := (caps s1)(m \<mapsto> take (length (rest st) - length (rest s1)) (rest st))\<rparr>"
    by auto
  from Grp.IH [OF s1 Grp.prems(2,3)]
  have c1: "\<forall>n w. caps s1 n = Some w \<longrightarrow> (\<forall>c\<in>set w. P c)" .
  have "\<forall>c\<in>set (take (length (rest st) - length (rest s1)) (rest st)). P c"
    using Grp.prems(2) by (auto dest: in_set_takeD)
  with c1 x show ?case by auto
next
  case (Seq a b)
  from Seq.prems(1) obtain s1 where s1: "s1 \<in> set (matches a st)" and x: "x \<in> set (matches b s1)"
    by auto
  from matches_suffix [OF s1] obtain u where "rest st = u @ rest s1" by blast
  with Seq.prems(2) have r1: "\<forall>c\<in>set (rest s1). P c" by auto
  from Seq.IH(1) [OF s1 Seq.prems(2,3)]
  have c1: "\<forall>n w. caps s1 n = Some w \<longrightarrow> (\<forall>c\<in>set w. P c)" .
  from Seq.IH(2) [OF x r1 c1] show ?case .
qed

lemma Seq_single: "matches a st = [s] \<Longrightarrow> matches (Seq a b) st = matches b s"
  by simp

lemma in_StarG_self: "st \<in> set (matches (StarG C) st)"
proof -
  have "(prev st, rest st) \<in> set (runs C (prev st) (rest st))" unfolding in_runs by auto
  then have "move st (prev st, rest st) \<in> set (matches (StarG C) st)" by simp
  then show ?thesis by (simp add: move_def)
qed

lemma in_Opt_self: "st \<in> set (matches (Opt r) st)"
  by simp

lemma group_taken:
  assumes "x \<in> set (matches (Seq (Grp n r) e) st)" and "n \<notin> groups e"
  shows "\<exists>w. caps x n = Some w"
proof -
  from in_Seq [OF assms(1)] obtain g where g: "g \<in> set (matches (Grp n r) st)"
    and x: "x \<in> set (matches e g)" by blast
  from g have "\<exists>w. caps g n = Some w" by auto
  with caps_kept [OF x assms(2)] show ?thesis by simp
qed

lemma member_nonempty: "x \<in> set xs \<Longrightarrow> xs \<noteq> []"
  by auto

lemma nonempty_Cons: "xs \<noteq> [] \<Longrightarrow> \<exists>x ys. xs = x # ys"
  by (cases xs) auto

lemma blank_at_key:
  assumes ls: "line_start p" and W: "\<forall>c\<in>set W. is_space c" and d: "\<exists>c\<in>set W. dot c"
  shows "\<exists>x. exec_from description_re p (js ''description:'' @ W) = Some x \<and>
           caps x 1 \<noteq> Some (js ''>'') \<and> (\<exists>w. caps x 2 = Some w \<and> (\<forall>c\<in>set w. is_space c))"
proof -
  let ?key = "js ''description:''"
  let ?st0 = "\<lparr>prev = p, rest = ?key @ W, caps = (\<lambda>n. None)\<rparr>"
  let ?s1 = "?st0\<lparr>prev := (if ?key = [] then prev ?st0 else Some (last ?key)),
                 rest := drop (length ?key) (rest ?st0)\<rparr>"
  let ?capt = "Seq (Grp 2 (PlusG dot)) (Eol True)"
  let ?tail = "Seq (StarG is_space) ?capt"
  let ?opt = "Opt (Grp 1 (Lit (js ''>'')))"
  let ?R = "Seq (StarG is_space) (Seq ?opt ?tail)"
  have b: "matches (Bol True) ?st0 = [?st0]"
    using ls by (auto simp: line_start_def split: option.splits)
  have l: "matches (Lit ?key) ?st0 = [?s1]" by simp
  have m: "matches description_re ?st0 = matches ?R ?s1"
    unfolding description_re_def by (simp only: Seq_single [OF b] Seq_single [OF l])
  have r1: "rest ?s1 = W" by simp
  from d r1 have "matches ?tail ?s1 \<noteq> []" by (intro tail_matches) simp
  then have z: "hd (matches ?tail ?s1) \<in> set (matches ?tail ?s1)" by (rule hd_in_set)
  from Seq_member [OF in_StarG_self Seq_member [OF in_Opt_self z]]
  have "hd (matches ?tail ?s1) \<in> set (matches ?R ?s1)" .
  then have "matches ?R ?s1 \<noteq> []" by (rule member_nonempty)
  from nonempty_Cons [OF this] obtain x xs where xs: "matches ?R ?s1 = x # xs" by blast
  with m have "first_match description_re ?st0 = Some x" by (simp only: first_match_def list.case)
  then have e: "exec_from description_re p (?key @ W) = Some x" by (rule exec_from_first)
  have "x \<in> set (x # xs)" by simp
  with xs have x: "x \<in> set (matches ?R ?s1)" by (simp only:)
  have c0: "\<forall>n w. caps ?s1 n = Some w \<longrightarrow> (\<forall>c\<in>set w. is_space c)" by simp
  from W r1 have w1: "\<forall>c\<in>set (rest ?s1). is_space c" by simp
  from caps_within [OF x w1 c0]
  have cw: "\<forall>n w. caps x n = Some w \<longrightarrow> (\<forall>c\<in>set w. is_space c)" .
  have n1: "caps x 1 \<noteq> Some (js ''>'')"
  proof
    assume "caps x 1 = Some (js ''>'')"
    with cw have "\<forall>c\<in>set (js ''>''). is_space c" by blast
    then show False by (simp add: js_def is_space_def)
  qed
  from in_Seq [OF x] obtain s2 where x2: "x \<in> set (matches (Seq ?opt ?tail) s2)" by blast
  from in_Seq [OF x2] obtain s3 where x3: "x \<in> set (matches ?tail s3)" by blast
  from in_Seq [OF x3] obtain s4 where x4: "x \<in> set (matches ?capt s4)" by blast
  from group_taken [OF x4] obtain w where "caps x 2 = Some w" by auto
  with cw e n1 show ?thesis by blast
qed

lemma describe_blank:
  assumes nokey: "\<forall>l\<in>set pre. \<not> has_description_key l"
    and kl: "kl = js ''description:'' @ v"
    and v: "\<forall>c\<in>set v. is_space c" and post: "\<forall>l\<in>set post. \<forall>c\<in>set l. is_space c"
    and more: "(\<exists>c\<in>set v. dot c) \<or> (\<exists>l\<in>set post. \<exists>c\<in>set l. dot c)"
  shows "describe_header (arr_join [10] (pre @ kl # post)) = []"
proof -
  let ?y = "arr_join [10] (pre @ kl # post)"
  let ?A = "concat (map (\<lambda>l. l @ [10]) pre)"
  let ?R = "concat (map ((#) 10) post)"
  have y: "?y = ?A @ kl @ ?R" by (rule join_lines)
  have ls: "line_start None" by (simp add: line_start_def)
  from skip_lines [OF ls nokey, of "kl @ ?R"] obtain p' where p': "line_start p'"
    and e1: "exec_from description_re None (?A @ kl @ ?R) = exec_from description_re p' (kl @ ?R)"
    by blast
  have sp10: "is_space 10" by (simp add: is_space_def)
  from v post sp10 have W: "\<forall>c\<in>set (v @ ?R). is_space c" by auto
  from more have d: "\<exists>c\<in>set (v @ ?R). dot c" by auto
  from blank_at_key [OF p' W d] kl obtain x w where
    x: "exec_from description_re p' (kl @ ?R) = Some x" "caps x 1 \<noteq> Some (js ''>'')"
      "caps x 2 = Some w" "\<forall>c\<in>set w. is_space c" by auto
  from y e1 x(1) have m: "str_match description_re ?y = Some x" by (simp add: str_match_def)
  from x(4) have "str_trim w = []" by (simp add: trim_Nil_iff)
  with m x(2,3) show ?thesis by (simp add: describe_header_def)
qed

section \<open>The two styles of description\<close>

lemma trim_indicator:
  assumes "str_trim v = js ''>''"
  shows "v = takeWhile is_space v @ 62 # tl (dropWhile is_space v)"
proof -
  from dropWhile_trim [of v] assms
  have "dropWhile is_space v = 62 # rev (takeWhile is_space (rev (dropWhile is_space v)))"
    by (simp add: js_def)
  then have "dropWhile is_space v = 62 # tl (dropWhile is_space v)"
    by (metis list.sel(3))
  then have "takeWhile is_space v @ dropWhile is_space v =
             takeWhile is_space v @ 62 # tl (dropWhile is_space v)" by (rule arg_cong)
  then show ?thesis by (simp only: takeWhile_dropWhile_id)
qed

lemma describe_folded_amended:
  assumes lines: "\<forall>l\<in>set (pre @ (js ''description:'' @ v) # post). 10 \<notin> set l"
    and nokey: "\<forall>l\<in>set pre. \<not> has_description_key l"
    and t: "str_trim v = js ''>''" and c: "covered v post"
  shows "describe_header (arr_join [10] (pre @ (js ''description:'' @ v) # post)) =
           amended_description v post"
proof -
  let ?sp = "takeWhile is_space v"
  let ?t = "tl (dropWhile is_space v)"
  from trim_indicator [OF t] have kl: "js ''description:'' @ v = js ''description:'' @ ?sp @ 62 # ?t"
    by simp
  have sp: "\<forall>c\<in>set ?sp. is_space c" by (auto dest: set_takeWhileD)
  from c t have more: "(\<exists>c\<in>set ?t. dot c) \<or> (\<exists>l\<in>set post. \<exists>c\<in>set l. dot c)"
    and stop: "case stop_line post of None \<Rightarrow> True | Some l \<Rightarrow> str_match folded_line_re l = None"
    by (simp_all add: covered_def list_ex_iff)
  from describe_folded [OF lines nokey kl sp more] folded_filter [OF stop] t
  show ?thesis by (simp add: amended_description_def)
qed

lemma describe_blank_amended:
  assumes nokey: "\<forall>l\<in>set pre. \<not> has_description_key l"
    and t: "str_trim v = []" and c: "covered v post"
  shows "describe_header (arr_join [10] (pre @ (js ''description:'' @ v) # post)) =
           amended_description v post"
proof -
  from t have v: "\<forall>c\<in>set v. is_space c" by (simp add: trim_Nil_iff)
  from t have ni: "str_trim v \<noteq> js ''>''" by (simp add: js_def)
  with c t have b: "list_all blank post" and d: "list_ex dot v \<or> list_ex (list_ex dot) post"
    by (simp_all add: covered_def)
  from b have post: "\<forall>l\<in>set post. \<forall>c\<in>set l. is_space c"
    by (simp add: list_all_iff blank_def trim_Nil_iff)
  from d have more: "(\<exists>c\<in>set v. dot c) \<or> (\<exists>l\<in>set post. \<exists>c\<in>set l. dot c)"
    by (simp add: list_ex_iff)
  from describe_blank [OF nokey refl v post more] t ni show ?thesis
    by (simp add: amended_description_def)
qed

lemma describe_inline_amended:
  assumes nokey: "\<forall>l\<in>set pre. \<not> has_description_key l"
    and t: "str_trim v \<noteq> js ''>''" "str_trim v \<noteq> []" and c: "covered v post"
  shows "describe_header (arr_join [10] (pre @ (js ''description:'' @ v) # post)) =
           amended_description v post"
proof -
  let ?T = "str_trim v"
  let ?S = "rev (takeWhile is_space (rev (dropWhile is_space v)))"
  from c t have h: "hd ?T \<noteq> 62" and d: "\<forall>u\<in>set ?T. dot u"
    by (simp_all add: covered_def list_all_iff)
  from t(2) obtain c0 cs0 where T: "?T = c0 # cs0" by (cases ?T) auto
  with dropWhile_trim [of v] have w: "dropWhile is_space v = c0 # (cs0 @ ?S)" by simp
  from h T have c0: "c0 \<noteq> 62" by simp
  from describe_inline [OF nokey refl w c0]
  have 1: "describe_header (arr_join [10] (pre @ (js ''description:'' @ v) # post)) =
             str_trim (takeWhile dot (c0 # cs0 @ ?S))" .
  have "takeWhile dot (?T @ ?S) = ?T @ takeWhile dot ?S"
    using d by (intro takeWhile_append2) simp
  with T have 2: "takeWhile dot (c0 # cs0 @ ?S) = ?T @ takeWhile dot ?S" by simp
  have "\<forall>c\<in>set (takeWhile dot ?S). is_space c" by (auto dest!: set_takeWhileD)
  from trim_spaces_after [OF this] have "str_trim (?T @ takeWhile dot ?S) = ?T" .
  with 1 2 t show ?thesis by (simp add: amended_description_def)
qed

text \<open>
  C4, as the code has it. The marker file has a header the program recognises, with
  header text \<open>y\<close>; the first description key of \<open>y\<close> stands at the start of a line,
  \<open>v\<close> is the rest of that line after the colon and \<open>post\<close> are the header lines after
  it. If \<open>v\<close> is the indicator \<open>>\<close> with nothing but white space around it, the
  description is made of the lines after it that are blank or begin with two spaces, up
  to the first line that is neither: the blank ones are passed over, the others are
  trimmed and joined by one space. Otherwise the description is \<open>v\<close>, trimmed. The
  statement is about the values and lines of \<open>covered\<close>.
\<close>

theorem description_styles:
  assumes "header_text content = Some y"
    and "str_split 10 y = pre @ (js ''description:'' @ v) # post"
    and "\<forall>l\<in>set pre. \<not> has_description_key l"
    and "covered v post"
  shows "parse_description content = amended_description v post"
proof -
  let ?L = "pre @ (js ''description:'' @ v) # post"
  from assms(1) have p: "parse_description content = describe_header y"
    by (simp add: parse_description_header)
  from join_split [of 10 y] assms(2) have y: "y = arr_join [10] ?L" by simp
  have lines: "\<forall>l\<in>set ?L. 10 \<notin> set l"
    using split_no_sep_in [of _ 10 y] assms(2) by auto
  consider "str_trim v = js ''>''" | "str_trim v = []"
    | "str_trim v \<noteq> js ''>''" "str_trim v \<noteq> []" by blast
  then have "describe_header (arr_join [10] ?L) = amended_description v post"
  proof cases
    case 1
    with lines assms(3) show ?thesis using assms(4) by (rule describe_folded_amended)
  next
    case 2
    with assms(3) show ?thesis using assms(4) by (rule describe_blank_amended)
  next
    case 3
    with assms(3) show ?thesis using assms(4) by (rule describe_inline_amended)
  qed
  with p y show ?thesis by simp
qed

lemmas description_eval = parse_description_def str_trim_def placeholder_def regex_eval

lemmas styles_eval = covered_def amended_description_def claimed_description_def stop_line_def
  blank_def indented_def str_trim_def regex_eval

theorem description_styles_witness:
  "header_text folded_marker =
     Some (js ''description: >\<newline>  line one\<newline>\<newline>  line two\<newline>name: x'') \<and>
   str_split 10 (js ''description: >\<newline>  line one\<newline>\<newline>  line two\<newline>name: x'') =
     [] @ (js ''description:'' @ js '' >'') # [js ''  line one'', [], js ''  line two'', js ''name: x''] \<and>
   covered (js '' >'') [js ''  line one'', [], js ''  line two'', js ''name: x''] \<and>
   parse_description folded_marker = js ''line one line two'' \<and>
   header_text inline_marker = Some (js ''name: x\<newline>description: Hello world'') \<and>
   str_split 10 (js ''name: x\<newline>description: Hello world'') =
     [js ''name: x''] @ (js ''description:'' @ js '' Hello world'') # [] \<and>
   \<not> has_description_key (js ''name: x'') \<and>
   covered (js '' Hello world'') [] \<and>
   parse_description inline_marker = js ''Hello world'' \<and>
   header_text indented_marker = Some (js ''  name: foo\<newline>description: x'') \<and>
   str_split 10 (js ''  name: foo\<newline>description: x'') =
     [js ''  name: foo''] @ (js ''description:'' @ js '' x'') # [] \<and>
   \<not> has_description_key (js ''  name: foo'') \<and>
   covered (js '' x'') [] \<and>
   parse_description indented_marker = js ''x'' \<and>
   header_text crlf_marker =
     Some (js ''description: >'' @ [13, 10] @ js ''  a'' @ [13, 10] @ js ''  b'' @ [13]) \<and>
   str_split 10 (js ''description: >'' @ [13, 10] @ js ''  a'' @ [13, 10] @ js ''  b'' @ [13]) =
     [] @ (js ''description:'' @ (js '' >'' @ [13])) # [js ''  a'' @ [13], js ''  b'' @ [13]] \<and>
   covered (js '' >'' @ [13]) [js ''  a'' @ [13], js ''  b'' @ [13]] \<and>
   parse_description crlf_marker = js ''a b'' \<and>
   header_text blank_value_marker = Some (js ''name: x\<newline>description: '') \<and>
   str_split 10 (js ''name: x\<newline>description: '') =
     [js ''name: x''] @ (js ''description:'' @ js '' '') # [] \<and>
   covered (js '' '') [] \<and>
   parse_description blank_value_marker = []"
proof -
  note t = description_styles
  have e: "\<forall>l\<in>set ([]::jsstring list). \<not> has_description_key l" by simp
  have a1: "header_text folded_marker =
     Some (js ''description: >\<newline>  line one\<newline>\<newline>  line two\<newline>name: x'')"
    by (simp add: folded_marker_def header_eval regex_eval js_def)
  have a2: "str_split 10 (js ''description: >\<newline>  line one\<newline>\<newline>  line two\<newline>name: x'') =
     [] @ (js ''description:'' @ js '' >'') # [js ''  line one'', [], js ''  line two'', js ''name: x'']"
    by (simp add: js_def)
  have a3: "covered (js '' >'') [js ''  line one'', [], js ''  line two'', js ''name: x'']"
    by (simp add: styles_eval js_def)
  have a4: "amended_description (js '' >'') [js ''  line one'', [], js ''  line two'', js ''name: x''] =
     js ''line one line two''"
    by (simp add: styles_eval js_def)
  from t [OF a1 a2 e a3] a4 have a: "parse_description folded_marker = js ''line one line two''"
    by simp
  have n: "\<not> has_description_key (js ''name: x'')" by (simp add: header_eval js_def)
  then have n': "\<forall>l\<in>set [js ''name: x'']. \<not> has_description_key l" by simp
  have b1: "header_text inline_marker = Some (js ''name: x\<newline>description: Hello world'')"
    by (simp add: inline_marker_def header_eval regex_eval js_def)
  have b2: "str_split 10 (js ''name: x\<newline>description: Hello world'') =
     [js ''name: x''] @ (js ''description:'' @ js '' Hello world'') # []"
    by (simp add: js_def)
  have b3: "covered (js '' Hello world'') []" by (simp add: styles_eval js_def)
  have b4: "amended_description (js '' Hello world'') [] = js ''Hello world''"
    by (simp add: styles_eval js_def)
  from t [OF b1 b2 n' b3] b4 have b: "parse_description inline_marker = js ''Hello world''"
    by simp
  have m: "\<not> has_description_key (js ''  name: foo'')" by (simp add: header_eval js_def)
  then have m': "\<forall>l\<in>set [js ''  name: foo'']. \<not> has_description_key l" by simp
  have c1: "header_text indented_marker = Some (js ''  name: foo\<newline>description: x'')"
    by (simp add: indented_marker_def header_eval regex_eval js_def)
  have c2: "str_split 10 (js ''  name: foo\<newline>description: x'') =
     [js ''  name: foo''] @ (js ''description:'' @ js '' x'') # []"
    by (simp add: js_def)
  have c3: "covered (js '' x'') []" by (simp add: styles_eval js_def)
  have c4: "amended_description (js '' x'') [] = js ''x''" by (simp add: styles_eval js_def)
  from t [OF c1 c2 m' c3] c4 have c: "parse_description indented_marker = js ''x''" by simp
  have d1: "header_text crlf_marker =
     Some (js ''description: >'' @ [13, 10] @ js ''  a'' @ [13, 10] @ js ''  b'' @ [13])"
    by (simp add: crlf_marker_def header_eval regex_eval js_def)
  have d2: "str_split 10 (js ''description: >'' @ [13, 10] @ js ''  a'' @ [13, 10] @ js ''  b'' @ [13]) =
     [] @ (js ''description:'' @ (js '' >'' @ [13])) # [js ''  a'' @ [13], js ''  b'' @ [13]]"
    by (simp add: js_def)
  have d3: "covered (js '' >'' @ [13]) [js ''  a'' @ [13], js ''  b'' @ [13]]"
    by (simp add: styles_eval js_def)
  have d4: "amended_description (js '' >'' @ [13]) [js ''  a'' @ [13], js ''  b'' @ [13]] = js ''a b''"
    by (simp add: styles_eval js_def)
  from t [OF d1 d2 e d3] d4 have d: "parse_description crlf_marker = js ''a b''" by simp
  have f1: "header_text blank_value_marker = Some (js ''name: x\<newline>description: '')"
    by (simp add: blank_value_marker_def header_eval regex_eval js_def)
  have f2: "str_split 10 (js ''name: x\<newline>description: '') =
     [js ''name: x''] @ (js ''description:'' @ js '' '') # []"
    by (simp add: js_def)
  have f3: "covered (js '' '') []" by (simp add: styles_eval js_def)
  have f4: "amended_description (js '' '') [] = []" by (simp add: styles_eval js_def)
  from t [OF f1 f2 n' f3] f4 have f: "parse_description blank_value_marker = []" by simp
  from a1 a2 a3 a b1 b2 n b3 b c1 c2 m c3 c d1 d2 d3 d f1 f2 f3 f show ?thesis by simp
qed

text \<open>
  C4 as stated fails. A blank line does not end a folded description: the loop passes
  over it (line 95) and goes on with the next indented line. The claim also fails on
  headers the statement above is not about, where the two patterns do not match as the
  loop and the claim read the lines: an indicator with nothing after it in the header is
  read as the value \<open>>\<close>; an empty value takes the next line, or leaves the
  placeholder when nothing follows; text after the indicator
  is dropped; a second \<open>description: >\<close> line does not stop the continuation; a value
  ends at a line separator; a key after a carriage return inside an earlier line is
  found first.
\<close>

theorem blank_line_counterexample:
  "parse_description (js ''---\<newline>description: >\<newline>  a\<newline>\<newline>  b\<newline>---\<newline>'') = js ''a b'' \<and>
   claimed_description (js '' >'') [js ''  a'', [], js ''  b''] = js ''a'' \<and>
   parse_description (js ''---\<newline>description: >\<newline>---\<newline>'') = js ''>'' \<and>
   claimed_description (js '' >'') [] = [] \<and>
   parse_description (js ''---\<newline>description:\<newline>name: foo\<newline>---\<newline>'') = js ''name: foo'' \<and>
   claimed_description [] [js ''name: foo''] = [] \<and>
   parse_description (js ''---\<newline>name: x\<newline>description:\<newline>---\<newline>'') = js ''No description available.'' \<and>
   claimed_description [] [] = [] \<and>
   parse_description (js ''---\<newline>description: > x\<newline>  a\<newline>---\<newline>'') = js ''a'' \<and>
   claimed_description (js '' > x'') [js ''  a''] = js ''> x'' \<and>
   parse_description (js ''---\<newline>description: >\<newline>  a\<newline>description: >\<newline>  b\<newline>---\<newline>'') = js ''a b'' \<and>
   claimed_description (js '' >'') [js ''  a'', js ''description: >'', js ''  b''] = js ''a'' \<and>
   parse_description (js ''---\<newline>description: a'' @ [8232] @ js ''b\<newline>---\<newline>'') = js ''a'' \<and>
   claimed_description (js '' a'' @ [8232] @ js ''b'') [] = js ''a'' @ [8232] @ js ''b'' \<and>
   parse_description (js ''---\<newline>x'' @ [13] @ js ''description: a\<newline>description: b\<newline>---\<newline>'') = js ''a'' \<and>
   claimed_description (js '' b'') [] = js ''b''"
  by (simp add: description_eval styles_eval js_def)

end
